theory Spec2Isabelle
  imports Complex_Main "HOL-Library.Word" "HOL-Library.Sublist"
begin

section \<open>Size-adaptive timeout (test\_timeout\_calculation.py)\<close>

text \<open>
  \<^verbatim>\<open>calculate_timeout_ms(content_length)\<close>: Python integers are unbounded, so the
  byte count and the result are \<^typ>\<open>int\<close>; \<^verbatim>\<open>//\<close> is floor division, as
  \<^const>\<open>divide\<close> on \<^typ>\<open>int\<close> is. The two clamping \<^verbatim>\<open>if\<close>s run in the
  order of the source.
\<close>

definition min_speed_bytes_per_sec :: int where
  "min_speed_bytes_per_sec = 50 * 1024"

definition base_timeout_ms :: int where
  "base_timeout_ms = 60000"

definition max_timeout_ms :: int where
  "max_timeout_ms = 3600000"

definition min_timeout_ms :: int where
  "min_timeout_ms = 300000"

definition calculate_timeout_ms :: "int \<Rightarrow> int" where
  "calculate_timeout_ms content_length =
     (if content_length = 0 then 300000
      else
        let calculated_timeout =
              base_timeout_ms + (content_length * 2000 div min_speed_bytes_per_sec);
            calculated_timeout =
              (if calculated_timeout < min_timeout_ms then min_timeout_ms
               else calculated_timeout);
            calculated_timeout =
              (if calculated_timeout > max_timeout_ms then max_timeout_ms
               else calculated_timeout)
        in calculated_timeout)"

section \<open>Text and bytes\<close>

text \<open>
  A Python \<^verbatim>\<open>bytes\<close> value is a list of 8-bit words; a Python \<^verbatim>\<open>str\<close> is a
  list of Unicode code points, each a natural number. \<open>py\<close> turns an ASCII literal of
  the source into such a string.
\<close>

type_synonym byte = "8 word"
type_synonym ustr = "nat list"

definition py :: "string \<Rightarrow> ustr" where
  "py s = map of_char s"

subsection \<open>\<^verbatim>\<open>bytes.decode('utf-8', errors='ignore')\<close>\<close>

text \<open>
  The decoder of the interpreter, on byte values. A well-formed sequence yields its code
  point. At an ill-formed one the \<^verbatim>\<open>ignore\<close> handler drops the bytes the decoder
  reports (the lead byte alone for an invalid start or an invalid second byte, the lead
  and the continuation bytes accepted so far for a later invalid byte, everything up to
  the end for a truncated sequence) and decoding resumes behind them. Nothing is put in
  their place.
\<close>

definition is_continuation :: "nat \<Rightarrow> bool" where
  "is_continuation c \<longleftrightarrow> 0x80 \<le> c \<and> c \<le> 0xBF"

definition bad_second3 :: "nat \<Rightarrow> nat \<Rightarrow> bool" where
  "bad_second3 b c \<longleftrightarrow>
     \<not> is_continuation c \<or> (if c < 0xA0 then b = 0xE0 else b = 0xED)"

definition bad_second4 :: "nat \<Rightarrow> nat \<Rightarrow> bool" where
  "bad_second4 b c \<longleftrightarrow>
     \<not> is_continuation c \<or> (if c < 0x90 then b = 0xF0 else b = 0xF4)"

fun utf8_ignore :: "nat list \<Rightarrow> nat list" where
  "utf8_ignore [] = []"
| "utf8_ignore (b # bs) =
     (if b < 0x80 then b # utf8_ignore bs
      else if b < 0xC2 then utf8_ignore bs
      else if b < 0xE0 then
        (case bs of
           [] \<Rightarrow> []
         | c # cs \<Rightarrow>
             if is_continuation c then ((b - 0xC0) * 64 + (c - 0x80)) # utf8_ignore cs
             else utf8_ignore bs)
      else if b < 0xF0 then
        (case bs of
           [] \<Rightarrow> []
         | c # cs \<Rightarrow>
             if bad_second3 b c then utf8_ignore bs
             else
               (case cs of
                  [] \<Rightarrow> []
                | d # ds \<Rightarrow>
                    if is_continuation d
                    then ((b - 0xE0) * 4096 + (c - 0x80) * 64 + (d - 0x80)) # utf8_ignore ds
                    else utf8_ignore cs))
      else if b < 0xF5 then
        (case bs of
           [] \<Rightarrow> []
         | c # cs \<Rightarrow>
             if bad_second4 b c then utf8_ignore bs
             else
               (case cs of
                  [] \<Rightarrow> []
                | d # ds \<Rightarrow>
                    if \<not> is_continuation d then utf8_ignore cs
                    else
                      (case ds of
                         [] \<Rightarrow> []
                       | e # es \<Rightarrow>
                           if is_continuation e
                           then ((b - 0xF0) * 262144 + (c - 0x80) * 4096
                                 + (d - 0x80) * 64 + (e - 0x80)) # utf8_ignore es
                           else utf8_ignore ds)))
      else utf8_ignore bs)"

definition decode_ignore :: "byte list \<Rightarrow> ustr" where
  "decode_ignore raw = utf8_ignore (map unat raw)"

subsection \<open>\<^verbatim>\<open>str.encode('utf-8')\<close>\<close>

text \<open>
  The strict encoder: a surrogate code point raises \<^verbatim>\<open>UnicodeEncodeError\<close>. A
  \<^verbatim>\<open>str\<close> holds no code point above \<open>0x10FFFF\<close>; the model refuses one as well.
\<close>

datatype exn = SerialException | UnicodeEncodeError | ValueError

definition encode_point :: "nat \<Rightarrow> nat list option" where
  "encode_point c =
     (if c < 0x80 then Some [c]
      else if c < 0x800 then Some [0xC0 + c div 64, 0x80 + c mod 64]
      else if c < 0x10000 then
        (if 0xD800 \<le> c \<and> c \<le> 0xDFFF then None
         else Some [0xE0 + c div 4096, 0x80 + c div 64 mod 64, 0x80 + c mod 64])
      else if c < 0x110000 then
        Some [0xF0 + c div 262144, 0x80 + c div 4096 mod 64,
              0x80 + c div 64 mod 64, 0x80 + c mod 64]
      else None)"

fun utf8_strict :: "nat list \<Rightarrow> nat list option" where
  "utf8_strict [] = Some []"
| "utf8_strict (c # cs) =
     (case encode_point c of
        None \<Rightarrow> None
      | Some bs \<Rightarrow> (case utf8_strict cs of None \<Rightarrow> None | Some r \<Rightarrow> Some (bs @ r)))"

definition encode_utf8 :: "ustr \<Rightarrow> exn + byte list" where
  "encode_utf8 s =
     (case utf8_strict s of
        None \<Rightarrow> Inl UnicodeEncodeError
      | Some bs \<Rightarrow> Inr (map of_nat bs))"

subsection \<open>\<^verbatim>\<open>str.strip()\<close> and \<^verbatim>\<open>'\n'.join\<close>\<close>

text \<open>
  \<^verbatim>\<open>strip()\<close> without an argument removes the leading and the trailing run of
  characters for which \<^verbatim>\<open>str.isspace\<close> holds.
\<close>

definition isspace :: "nat \<Rightarrow> bool" where
  "isspace c \<longleftrightarrow>
     (0x09 \<le> c \<and> c \<le> 0x0D) \<or> (0x1C \<le> c \<and> c \<le> 0x20) \<or> c = 0x85 \<or> c = 0xA0
     \<or> c = 0x1680 \<or> (0x2000 \<le> c \<and> c \<le> 0x200A) \<or> c = 0x2028 \<or> c = 0x2029
     \<or> c = 0x202F \<or> c = 0x205F \<or> c = 0x3000"

definition strip :: "ustr \<Rightarrow> ustr" where
  "strip s = rev (dropWhile isspace (rev (dropWhile isspace s)))"

fun join_lines :: "ustr list \<Rightarrow> ustr" where
  "join_lines [] = []"
| "join_lines [l] = l"
| "join_lines (l # ls) = l @ 10 # join_lines ls"

section \<open>The serial port\<close>

text \<open>
  The part of a \<^verbatim>\<open>serial.Serial\<close> object the testers use: whether the port is open,
  whether the link still works, the bytes received and not yet read, and the bytes
  written. Every operation raises on a port that is closed or whose link is broken.
  \<^verbatim>\<open>readline()\<close> returns the buffered bytes up to and including the first line
  feed, or all of them when no line feed has arrived before the read timeout.
\<close>

record serial =
  is_open :: bool
  alive :: bool
  in_buffer :: "byte list"
  out_bytes :: "byte list"

definition usable :: "serial \<Rightarrow> bool" where
  "usable s \<longleftrightarrow> is_open s \<and> alive s"

definition reset_input_buffer :: "serial \<Rightarrow> exn + serial" where
  "reset_input_buffer s =
     (if usable s then Inr (s\<lparr>in_buffer := []\<rparr>) else Inl SerialException)"

definition write_port :: "byte list \<Rightarrow> serial \<Rightarrow> exn + serial" where
  "write_port bs s =
     (if usable s then Inr (s\<lparr>out_bytes := out_bytes s @ bs\<rparr>) else Inl SerialException)"

definition in_waiting :: "serial \<Rightarrow> exn + nat" where
  "in_waiting s = (if usable s then Inr (length (in_buffer s)) else Inl SerialException)"

definition first_line :: "byte list \<Rightarrow> byte list" where
  "first_line buf =
     takeWhile (\<lambda>b. b \<noteq> 0x0A) buf @ take 1 (dropWhile (\<lambda>b. b \<noteq> 0x0A) buf)"

definition readline :: "serial \<Rightarrow> exn + byte list \<times> serial" where
  "readline s =
     (if usable s
      then
        let raw = first_line (in_buffer s)
        in Inr (raw, s\<lparr>in_buffer := drop (length raw) (in_buffer s)\<rparr>)
      else Inl SerialException)"

text \<open>
  What the device and the link do while a tester waits: one entry for every test of the
  \<^verbatim>\<open>while\<close> condition, holding the value of \<^verbatim>\<open>time.time() - start_time\<close> read
  there and what has happened on the link since the previous test: bytes that arrived, or
  the link breaking. After the last entry the clock is past every deadline.
\<close>

datatype event = Arrive "byte list" | Unplug

type_synonym tick = "real \<times> event"

definition deliver :: "event \<Rightarrow> serial \<Rightarrow> serial" where
  "deliver ev s =
     (case ev of
        Arrive bs \<Rightarrow> s\<lparr>in_buffer := in_buffer s @ bs\<rparr>
      | Unplug \<Rightarrow> s\<lparr>alive := False\<rparr>)"

section \<open>ATBNTester.send\_command (test\_atbn\_comprehensive.py)\<close>

definition terminal_tokens :: "ustr list" where
  "terminal_tokens = [py ''OK'', py ''ERROR'', py ''SEND OK'', py ''SEND FAIL'']"

definition success_tokens :: "ustr list" where
  "success_tokens = [py ''OK'', py ''SEND OK'']"

record atbn_tester =
  serial_conn :: "serial option"
  timeout :: int

text \<open>\<^verbatim>\<open>timeout or self.timeout\<close>: \<^verbatim>\<open>None\<close> and \<^verbatim>\<open>0\<close> are both false.\<close>

definition timeout_or :: "int option \<Rightarrow> int \<Rightarrow> int" where
  "timeout_or t d = (case t of None \<Rightarrow> d | Some v \<Rightarrow> if v = 0 then d else v)"

text \<open>
  The \<^verbatim>\<open>while\<close> loop of \<^verbatim>\<open>send_command\<close>, with \<open>response_lines\<close> as the
  accumulator. A raised exception leaves the loop as \<open>Inl\<close>; the two \<^verbatim>\<open>return\<close>s
  inside the loop and the one after it are \<open>Inr\<close>.
\<close>

fun send_command_loop ::
  "bool \<Rightarrow> real \<Rightarrow> serial \<Rightarrow> tick list \<Rightarrow> ustr list \<Rightarrow> (exn + bool \<times> ustr list) \<times> serial"
where
  "send_command_loop expect_data_prompt cmd_timeout s [] response_lines =
     (Inr (False, response_lines), s)"
| "send_command_loop expect_data_prompt cmd_timeout s ((elapsed, ev) # ticks) response_lines =
     (if elapsed < cmd_timeout then
        let s = deliver ev s in
        (case in_waiting s of
           Inl e \<Rightarrow> (Inl e, s)
         | Inr n \<Rightarrow>
             if n > 0 then
               (case readline s of
                  Inl e \<Rightarrow> (Inl e, s)
                | Inr (raw, s) \<Rightarrow>
                    let line = strip (decode_ignore raw) in
                    if line \<noteq> [] then
                      let response_lines = response_lines @ [line] in
                      if expect_data_prompt \<and> line = py ''>''
                      then (Inr (True, response_lines), s)
                      else if line \<in> set terminal_tokens
                      then (Inr (line \<in> set success_tokens, response_lines), s)
                      else send_command_loop expect_data_prompt cmd_timeout s ticks
                             response_lines
                    else send_command_loop expect_data_prompt cmd_timeout s ticks
                           response_lines)
             else send_command_loop expect_data_prompt cmd_timeout s ticks response_lines)
      else (Inr (False, response_lines), s))"

text \<open>
  The body of the \<^verbatim>\<open>try\<close>: flush, encode, write, loop. The first exception ends it.
\<close>

definition send_command_body ::
  "serial \<Rightarrow> ustr \<Rightarrow> real \<Rightarrow> bool \<Rightarrow> tick list \<Rightarrow> (exn + bool \<times> ustr list) \<times> serial"
where
  "send_command_body conn command cmd_timeout expect_data_prompt ticks =
     (case reset_input_buffer conn of
        Inl e \<Rightarrow> (Inl e, conn)
      | Inr s1 \<Rightarrow>
          (case encode_utf8 (command @ [0x0D, 0x0A]) of
             Inl e \<Rightarrow> (Inl e, s1)
           | Inr cmd_bytes \<Rightarrow>
               (case write_port cmd_bytes s1 of
                  Inl e \<Rightarrow> (Inl e, s1)
                | Inr s2 \<Rightarrow> send_command_loop expect_data_prompt cmd_timeout s2 ticks [])))"

text \<open>
  \<^verbatim>\<open>send_command(command, timeout, expect_data_prompt)\<close> returns the pair
  \<open>(success, response_lines)\<close>; the tester with its port as the call left it is returned
  beside it. The \<^verbatim>\<open>except Exception\<close> handler returns \<open>(False, [])\<close>.
\<close>

definition send_command ::
  "atbn_tester \<Rightarrow> ustr \<Rightarrow> int option \<Rightarrow> bool \<Rightarrow> tick list
     \<Rightarrow> (bool \<times> ustr list) \<times> atbn_tester"
where
  "send_command self command timeout_arg expect_data_prompt ticks =
     (case serial_conn self of
        None \<Rightarrow> ((False, []), self)
      | Some conn \<Rightarrow>
          if \<not> is_open conn then ((False, []), self)
          else
            let cmd_timeout = timeout_or timeout_arg (timeout self) in
            (case send_command_body conn command (of_int cmd_timeout) expect_data_prompt ticks of
               (Inl e, s) \<Rightarrow> ((False, []), self\<lparr>serial_conn := Some s\<rparr>)
             | (Inr r, s) \<Rightarrow> (r, self\<lparr>serial_conn := Some s\<rparr>)))"

section \<open>send\_at\_command (simple\_test.py, performance\_test.py)\<close>

text \<open>
  \<^verbatim>\<open>SimpleATTester\<close> and \<^verbatim>\<open>PerformanceTester\<close> hold the port in \<^verbatim>\<open>conn\<close> and a
  default timeout in \<^verbatim>\<open>timeout\<close> (here \<open>conn_timeout\<close>). Their
  \<^verbatim>\<open>send_at_command\<close> has no \<^verbatim>\<open>try\<close>: an exception reaches the caller. It returns
  the response lines joined by line feeds. The two loops are the same text;
  \<^verbatim>\<open>PerformanceTester\<close> returns a wall-clock measurement as a third component, which
  is left out here.
\<close>

record at_tester =
  conn :: "serial option"
  conn_timeout :: int

fun send_at_command_loop ::
  "real \<Rightarrow> serial \<Rightarrow> tick list \<Rightarrow> ustr list \<Rightarrow> (exn + bool \<times> ustr) \<times> serial"
where
  "send_at_command_loop tmo s [] response_lines =
     (Inr (False, if response_lines \<noteq> [] then join_lines response_lines else py ''TIMEOUT''), s)"
| "send_at_command_loop tmo s ((elapsed, ev) # ticks) response_lines =
     (if elapsed < tmo then
        let s = deliver ev s in
        (case in_waiting s of
           Inl e \<Rightarrow> (Inl e, s)
         | Inr n \<Rightarrow>
             if n > 0 then
               (case readline s of
                  Inl e \<Rightarrow> (Inl e, s)
                | Inr (raw, s) \<Rightarrow>
                    let line = strip (decode_ignore raw) in
                    if line \<noteq> [] then
                      let response_lines = response_lines @ [line] in
                      if line \<in> set terminal_tokens
                      then (Inr (line \<in> set success_tokens, join_lines response_lines), s)
                      else send_at_command_loop tmo s ticks response_lines
                    else send_at_command_loop tmo s ticks response_lines)
             else send_at_command_loop tmo s ticks response_lines)
      else
        (Inr (False, if response_lines \<noteq> [] then join_lines response_lines
                     else py ''TIMEOUT''), s))"

definition send_at_command_body ::
  "serial \<Rightarrow> ustr \<Rightarrow> real \<Rightarrow> tick list \<Rightarrow> (exn + bool \<times> ustr) \<times> serial"
where
  "send_at_command_body c command tmo ticks =
     (case encode_utf8 (command @ [0x0D, 0x0A]) of
        Inl e \<Rightarrow> (Inl e, c)
      | Inr cmd_bytes \<Rightarrow>
          (case write_port cmd_bytes c of
             Inl e \<Rightarrow> (Inl e, c)
           | Inr s1 \<Rightarrow> send_at_command_loop tmo s1 ticks []))"

definition simple_send_at_command ::
  "at_tester \<Rightarrow> ustr \<Rightarrow> tick list \<Rightarrow> (exn + bool \<times> ustr) \<times> at_tester"
where
  "simple_send_at_command self command ticks =
     (case conn self of
        None \<Rightarrow> (Inr (False, py ''Not connected''), self)
      | Some c \<Rightarrow>
          (case send_at_command_body c command (of_int (conn_timeout self)) ticks of
             (r, s) \<Rightarrow> (r, self\<lparr>conn := Some s\<rparr>)))"

definition perf_send_at_command ::
  "at_tester \<Rightarrow> ustr \<Rightarrow> int option \<Rightarrow> tick list \<Rightarrow> (exn + bool \<times> ustr) \<times> at_tester"
where
  "perf_send_at_command self command extended_timeout ticks =
     (case conn self of
        None \<Rightarrow> (Inr (False, py ''Not connected''), self)
      | Some c \<Rightarrow>
          let tmo = timeout_or extended_timeout (conn_timeout self) in
          (case send_at_command_body c command (of_int tmo) ticks of
             (r, s) \<Rightarrow> (r, self\<lparr>conn := Some s\<rparr>)))"

section \<open>Download frame markers\<close>

text \<open>
  The regular expressions of the source have the shape \<^verbatim>\<open>literal(\d+)literal\<close>. In a
  \<^verbatim>\<open>str\<close> pattern \<^verbatim>\<open>\d\<close> is any Unicode decimal digit: below 128 these are
  \<^verbatim>\<open>0\<close> to \<^verbatim>\<open>9\<close>; for the code points from 128 on, the digit table of the
  interpreter's Unicode database is the parameter \<open>uni\<close>. \<open>match_at\<close> is a match
  that starts at the first character: the literal, the longest run of digits, the closing
  literal (which starts with no digit, so a shorter run cannot match either). It returns
  the group and the text behind the match.
\<close>

definition digit_value :: "(nat \<Rightarrow> nat option) \<Rightarrow> nat \<Rightarrow> nat option" where
  "digit_value uni c =
     (if c < 128 then (if 48 \<le> c \<and> c \<le> 57 then Some (c - 48) else None) else uni c)"

definition is_digit :: "(nat \<Rightarrow> nat option) \<Rightarrow> nat \<Rightarrow> bool" where
  "is_digit uni c \<longleftrightarrow> digit_value uni c \<noteq> None"

definition match_at ::
  "(nat \<Rightarrow> nat option) \<Rightarrow> ustr \<Rightarrow> ustr \<Rightarrow> ustr \<Rightarrow> (ustr \<times> ustr) option"
where
  "match_at uni pre suf text =
     (if prefix pre text then
        let after = drop (length pre) text;
            ds = takeWhile (is_digit uni) after;
            rest = dropWhile (is_digit uni) after
        in if ds \<noteq> [] \<and> prefix suf rest then Some (ds, drop (length suf) rest) else None
      else None)"

text \<open>\<^verbatim>\<open>re.search(...).group(1)\<close>: the group of the leftmost match.\<close>

fun re_search :: "(nat \<Rightarrow> nat option) \<Rightarrow> ustr \<Rightarrow> ustr \<Rightarrow> ustr \<Rightarrow> ustr option" where
  "re_search uni pre suf [] = None"
| "re_search uni pre suf (c # cs) =
     (case match_at uni pre suf (c # cs) of
        Some (ds, rest) \<Rightarrow> Some ds
      | None \<Rightarrow> re_search uni pre suf cs)"

lemma match_at_shorter:
  "match_at uni pre suf text = Some (ds, rest) \<Longrightarrow> length rest < length text"
proof -
  assume m: "match_at uni pre suf text = Some (ds, rest)"
  let ?after = "drop (length pre) text"
  from m have ne: "takeWhile (is_digit uni) ?after \<noteq> []"
    and r: "rest = drop (length suf) (dropWhile (is_digit uni) ?after)"
    by (auto simp: match_at_def Let_def split: if_splits)
  have "length (takeWhile (is_digit uni) ?after) + length (dropWhile (is_digit uni) ?after)
          = length ?after"
    by (metis length_append takeWhile_dropWhile_id)
  with ne have "length (dropWhile (is_digit uni) ?after) < length ?after"
    by (cases "takeWhile (is_digit uni) ?after") auto
  with r show ?thesis by simp
qed

text \<open>
  \<^verbatim>\<open>re.findall\<close>: the groups of the matches found from left to right, the search
  resuming behind each match.
\<close>

function re_findall :: "(nat \<Rightarrow> nat option) \<Rightarrow> ustr \<Rightarrow> ustr \<Rightarrow> ustr \<Rightarrow> ustr list" where
  "re_findall uni pre suf [] = []"
| "re_findall uni pre suf (c # cs) =
     (case match_at uni pre suf (c # cs) of
        Some (ds, rest) \<Rightarrow> ds # re_findall uni pre suf rest
      | None \<Rightarrow> re_findall uni pre suf cs)"
  by pat_completeness auto
termination
  by (relation "measure (\<lambda>(uni, pre, suf, text). length text)")
    (auto dest: match_at_shorter)

text \<open>
  \<^verbatim>\<open>int(m)\<close> on a run of decimal digits, as the groups of the patterns are.
  \<open>int_of_digits\<close> is the value of the run. The interpreter refuses to convert a run
  that is too long: with its limit \<open>max_str_digits\<close> (4300 unless the interpreter is
  configured otherwise; 0 switches the check off, as does an interpreter older than the
  limit), a run of more than 640 digits that is longer than the limit raises
  \<^verbatim>\<open>ValueError\<close>. Leading zeros count. No function of the source catches it.
\<close>

definition int_of_digits :: "(nat \<Rightarrow> nat option) \<Rightarrow> ustr \<Rightarrow> int" where
  "int_of_digits uni ds =
     foldl (\<lambda>a c. case digit_value uni c of Some d \<Rightarrow> 10 * a + int d | None \<Rightarrow> a) 0 ds"

definition exceeds_limit :: "nat \<Rightarrow> ustr \<Rightarrow> bool" where
  "exceeds_limit max_str_digits ds \<longleftrightarrow>
     640 < length ds \<and> 0 < max_str_digits \<and> max_str_digits < length ds"

definition py_int :: "nat \<Rightarrow> (nat \<Rightarrow> nat option) \<Rightarrow> ustr \<Rightarrow> exn + int" where
  "py_int max_str_digits uni ds =
     (if exceeds_limit max_str_digits ds then Inl ValueError
      else Inr (int_of_digits uni ds))"

text \<open>\<^verbatim>\<open>int(match) for match in post_matches\<close>: the first error ends it.\<close>

fun py_ints :: "nat \<Rightarrow> (nat \<Rightarrow> nat option) \<Rightarrow> ustr list \<Rightarrow> exn + int list" where
  "py_ints max_str_digits uni [] = Inr []"
| "py_ints max_str_digits uni (m # ms) =
     (case py_int max_str_digits uni m of
        Inl e \<Rightarrow> Inl e
      | Inr v \<Rightarrow>
          (case py_ints max_str_digits uni ms of
             Inl e \<Rightarrow> Inl e
           | Inr vs \<Rightarrow> Inr (v # vs)))"

text \<open>
  The patterns of the source: \<^verbatim>\<open>re.search(r'\+LEN:(\d+),', text)\<close>,
  \<^verbatim>\<open>re.findall(r'\+POST:(\d+),', text)\<close>,
  \<^verbatim>\<open>re.search(r'File saved \((\d+) bytes\)', text)\<close> and
  \<^verbatim>\<open>text.count('+POST:')\<close>. \<^verbatim>\<open>str.count\<close> counts occurrences that do not
  overlap.
\<close>

definition search_len :: "(nat \<Rightarrow> nat option) \<Rightarrow> ustr \<Rightarrow> ustr option" where
  "search_len uni text = re_search uni (py ''+LEN:'') (py '','') text"

definition findall_post :: "(nat \<Rightarrow> nat option) \<Rightarrow> ustr \<Rightarrow> ustr list" where
  "findall_post uni text = re_findall uni (py ''+POST:'') (py '','') text"

definition search_saved :: "(nat \<Rightarrow> nat option) \<Rightarrow> ustr \<Rightarrow> ustr option" where
  "search_saved uni text = re_search uni (py ''File saved ('') (py '' bytes)'') text"

function count_sub :: "ustr \<Rightarrow> ustr \<Rightarrow> nat" where
  "count_sub sub text =
     (if sub = [] then length text + 1
      else if text = [] then 0
      else if prefix sub text then 1 + count_sub sub (drop (length sub) text)
      else count_sub sub (tl text))"
  by pat_completeness auto
termination
  by (relation "measure (\<lambda>(sub, text). length text)") auto

declare count_sub.simps [simp del]

definition count_post :: "ustr \<Rightarrow> nat" where
  "count_post text = count_sub (py ''+POST:'') text"

text \<open>
  The extraction inside \<^verbatim>\<open>test_response_format_len_post_chunks\<close>, which the test
  runs on the response of a successful command: the response lines are joined by line
  feeds; without a \<^verbatim>\<open>+LEN:\<close> match the check fails and nothing more is looked at
  (\<open>Inr None\<close>); with one, the declared length is converted and then every
  \<^verbatim>\<open>+POST:\<close> match gives a chunk size. A \<^verbatim>\<open>ValueError\<close> of a conversion leaves
  the function (\<open>Inl\<close>).
\<close>

record download_frame =
  expected_len :: int
  post_sizes :: "int list"
  total_post_bytes :: int

definition len_post_chunks ::
  "nat \<Rightarrow> (nat \<Rightarrow> nat option) \<Rightarrow> ustr list \<Rightarrow> exn + download_frame option"
where
  "len_post_chunks max_str_digits uni response =
     (let response_text = join_lines response;
          len_match = search_len uni response_text
      in case len_match of
           None \<Rightarrow> Inr None
         | Some g \<Rightarrow>
             (case py_int max_str_digits uni g of
                Inl e \<Rightarrow> Inl e
              | Inr len \<Rightarrow>
                  (case py_ints max_str_digits uni (findall_post uni response_text) of
                     Inl e \<Rightarrow> Inl e
                   | Inr sizes \<Rightarrow>
                       Inr (Some \<lparr>expected_len = len,
                                  post_sizes = sizes,
                                  total_post_bytes = sum_list sizes\<rparr>))))"

text \<open>
  \<^verbatim>\<open>PerformanceTester.extract_download_stats\<close> works on the joined response text
  and fills a dictionary: the declared length of the first \<^verbatim>\<open>+LEN:\<close> match, the
  size of a \<^verbatim>\<open>File saved (n bytes)\<close> note, and the number of times the substring
  \<^verbatim>\<open>+POST:\<close> occurs, whatever follows it. \<open>store_int\<close> is
  \<^verbatim>\<open>if m: stats[key] = int(m.group(1))\<close> for the result of a search.
\<close>

definition store_int ::
  "nat \<Rightarrow> (nat \<Rightarrow> nat option) \<Rightarrow> string \<Rightarrow> ustr option \<Rightarrow> (string \<rightharpoonup> int)
     \<Rightarrow> exn + (string \<rightharpoonup> int)"
where
  "store_int max_str_digits uni key found stats =
     (case found of
        None \<Rightarrow> Inr stats
      | Some g \<Rightarrow>
          (case py_int max_str_digits uni g of
             Inl e \<Rightarrow> Inl e
           | Inr v \<Rightarrow> Inr (stats(key \<mapsto> v))))"

definition extract_download_stats ::
  "nat \<Rightarrow> (nat \<Rightarrow> nat option) \<Rightarrow> ustr \<Rightarrow> exn + (string \<rightharpoonup> int)"
where
  "extract_download_stats max_str_digits uni response =
     (case store_int max_str_digits uni ''total_bytes'' (search_len uni response) Map.empty of
        Inl e \<Rightarrow> Inl e
      | Inr stats \<Rightarrow>
          (case store_int max_str_digits uni ''saved_bytes'' (search_saved uni response)
                  stats of
             Inl e \<Rightarrow> Inl e
           | Inr stats \<Rightarrow>
               let post_chunks = count_post response
               in Inr (if post_chunks > 0 then stats(''chunks_received'' \<mapsto> int post_chunks)
                       else stats)))"

text \<open>The first result that a function gives on the elements of a list.\<close>

fun first_some :: "('a \<Rightarrow> 'b option) \<Rightarrow> 'a list \<Rightarrow> 'b option" where
  "first_some f [] = None"
| "first_some f (x # xs) = (case f x of Some y \<Rightarrow> Some y | None \<Rightarrow> first_some f xs)"

section \<open>Lines on the link\<close>

text \<open>
  What the polling of the loops reads, apart from any rule for stopping: for the ticks
  before the deadline, the non-empty trimmed lines in the order they are read, up to the
  first exception if the link breaks. \<open>buf\<close> is the input buffer at the start;
  \<open>line_of\<close> is the trimmed text of the line \<^verbatim>\<open>readline()\<close> takes from a buffer and
  \<open>rest_after\<close> what it leaves there.
\<close>

definition line_of :: "byte list \<Rightarrow> ustr" where
  "line_of buf = strip (decode_ignore (first_line buf))"

definition rest_after :: "byte list \<Rightarrow> byte list" where
  "rest_after buf = drop (length (first_line buf)) buf"

fun line_stream :: "real \<Rightarrow> byte list \<Rightarrow> tick list \<Rightarrow> (exn + ustr) list" where
  "line_stream tmo buf [] = []"
| "line_stream tmo buf ((elapsed, Unplug) # ticks) =
     (if elapsed < tmo then [Inl SerialException] else [])"
| "line_stream tmo buf ((elapsed, Arrive bs) # ticks) =
     (if elapsed < tmo then
        (if line_of (buf @ bs) \<noteq> [] then [Inr (line_of (buf @ bs))] else [])
        @ line_stream tmo (rest_after (buf @ bs)) ticks
      else [])"

text \<open>A line at which \<^verbatim>\<open>send_command\<close> returns.\<close>

definition stops :: "bool \<Rightarrow> ustr \<Rightarrow> bool" where
  "stops expect_data_prompt line \<longleftrightarrow>
     (expect_data_prompt \<and> line = py ''>'') \<or> line \<in> set terminal_tokens"

text \<open>The lines of a list up to and including the first one that satisfies \<open>P\<close>.\<close>

definition upto_first :: "('a \<Rightarrow> bool) \<Rightarrow> 'a list \<Rightarrow> 'a list" where
  "upto_first P xs = takeWhile (\<lambda>x. \<not> P x) xs @ take 1 (dropWhile (\<lambda>x. \<not> P x) xs)"

text \<open>
  The stopping rule of \<^verbatim>\<open>send_command\<close> on its own, applied to a stream of lines:
  the value the loop returns (or the exception that leaves it) when the polling reads
  that stream. It is the link between the loops and \<open>line_stream\<close> in the proofs.
\<close>

fun stop_rule :: "bool \<Rightarrow> (exn + ustr) list \<Rightarrow> ustr list \<Rightarrow> exn + bool \<times> ustr list" where
  "stop_rule ep [] acc = Inr (False, acc)"
| "stop_rule ep (Inl e # xs) acc = Inl e"
| "stop_rule ep (Inr line # xs) acc =
     (if ep \<and> line = py ''>'' then Inr (True, acc @ [line])
      else if line \<in> set terminal_tokens then Inr (line \<in> set success_tokens, acc @ [line])
      else stop_rule ep xs (acc @ [line]))"

text \<open>
  A tester that can start a transaction: its port is open, the link works and the
  command can be encoded.
\<close>

definition ready :: "serial option \<Rightarrow> ustr \<Rightarrow> bool" where
  "ready port command \<longleftrightarrow>
     (case port of None \<Rightarrow> False | Some c \<Rightarrow> usable c)
     \<and> (case encode_utf8 (command @ [0x0D, 0x0A]) of Inl e \<Rightarrow> False | Inr bs \<Rightarrow> True)"

text \<open>
  The lines that reach a call of \<^verbatim>\<open>send_command\<close>: the input buffer is empty when
  the command is written, and the deadline is the one the call chooses.
\<close>

definition incoming :: "atbn_tester \<Rightarrow> int option \<Rightarrow> tick list \<Rightarrow> (exn + ustr) list" where
  "incoming self timeout_arg ticks =
     line_stream (of_int (timeout_or timeout_arg (timeout self))) [] ticks"

text \<open>
  Decoding only deletes: the decoded text, encoded again, is a subsequence of the byte
  values decoded. (A predicate of the proofs, not of the program.)
\<close>

definition deletes_only :: "nat list \<Rightarrow> bool" where
  "deletes_only ns \<longleftrightarrow> (\<exists>bs. utf8_strict (utf8_ignore ns) = Some bs \<and> subseq bs ns)"

section \<open>Example data\<close>

text \<open>
  An ASCII \<^verbatim>\<open>bytes\<close> literal followed by CR LF, as the device sends a line; a port
  that is open and working with the given unread input; an \<^verbatim>\<open>ATBNTester\<close> on a port
  with the default \<^verbatim>\<open>SERIAL_TIMEOUT\<close> of 10 seconds; a \<^verbatim>\<open>PerformanceTester\<close> on
  a port with its default timeout of 30 seconds; and the empty digit table for the code
  points from 128 on.
\<close>

definition wire :: "string \<Rightarrow> byte list" where
  "wire s = map of_char s @ [0x0D, 0x0A]"

definition port_with :: "byte list \<Rightarrow> serial" where
  "port_with buf = \<lparr>is_open = True, alive = True, in_buffer = buf, out_bytes = []\<rparr>"

definition atbn_on :: "serial \<Rightarrow> atbn_tester" where
  "atbn_on p = \<lparr>serial_conn = Some p, timeout = 10\<rparr>"

definition at_on :: "serial \<Rightarrow> at_tester" where
  "at_on p = \<lparr>conn = Some p, conn_timeout = 30\<rparr>"

definition no_digits :: "nat \<Rightarrow> nat option" where
  "no_digits c = None"

section \<open>The loops and the line stream\<close>

lemma first_line_Nil: "first_line [] = []"
  by (simp add: first_line_def)

lemma strip_Nil: "strip [] = []"
  by (simp add: strip_def)

lemma decode_ignore_Nil: "decode_ignore [] = []"
  by (simp add: decode_ignore_def)

lemma send_command_loop_stream:
  "usable s \<Longrightarrow>
   fst (send_command_loop ep tmo s ticks acc)
     = stop_rule ep (line_stream tmo (in_buffer s) ticks) acc"
proof (induction ticks arbitrary: s acc)
  case Nil
  then show ?case by simp
next
  case (Cons tk ticks)
  obtain elapsed ev where tk: "tk = (elapsed, ev)" by (cases tk)
  show ?case
  proof (cases ev)
    case Unplug
    then show ?thesis
      using Cons.prems by (simp add: tk deliver_def in_waiting_def usable_def)
  next
    case (Arrive bs)
    let ?s1 = "s\<lparr>in_buffer := in_buffer s @ bs\<rparr>"
    let ?raw = "first_line (in_buffer s @ bs)"
    let ?s2 = "?s1\<lparr>in_buffer := drop (length ?raw) (in_buffer s @ bs)\<rparr>"
    have u1: "usable ?s1" and u2: "usable ?s2"
      using Cons.prems by (simp_all add: usable_def)
    have ih1: "\<And>acc. fst (send_command_loop ep tmo ?s1 ticks acc)
                 = stop_rule ep (line_stream tmo (in_buffer ?s1) ticks) acc"
      using Cons.IH [OF u1] .
    have ih2: "\<And>acc. fst (send_command_loop ep tmo ?s2 ticks acc)
                 = stop_rule ep (line_stream tmo (in_buffer ?s2) ticks) acc"
      using Cons.IH [OF u2] .
    show ?thesis
    proof (cases "in_buffer s @ bs = []")
      case True
      then show ?thesis
        using Cons.prems ih1
        by (simp add: tk Arrive deliver_def in_waiting_def first_line_Nil strip_Nil
            decode_ignore_Nil Let_def usable_def line_of_def rest_after_def)
    next
      case False
      then show ?thesis
        using u1 ih2
        by (simp add: tk Arrive deliver_def in_waiting_def readline_def Let_def
            line_of_def rest_after_def)
    qed
  qed
qed


lemma send_at_command_loop_stream:
  "usable s \<Longrightarrow>
   fst (send_at_command_loop tmo s ticks acc)
     = (case stop_rule False (line_stream tmo (in_buffer s) ticks) acc of
          Inl e \<Rightarrow> Inl e
        | Inr (ok, ls) \<Rightarrow> Inr (ok, if ls \<noteq> [] then join_lines ls else py ''TIMEOUT''))"
proof (induction ticks arbitrary: s acc)
  case Nil
  then show ?case by simp
next
  case (Cons tk ticks)
  obtain elapsed ev where tk: "tk = (elapsed, ev)" by (cases tk)
  show ?case
  proof (cases ev)
    case Unplug
    then show ?thesis
      using Cons.prems by (simp add: tk deliver_def in_waiting_def usable_def)
  next
    case (Arrive bs)
    let ?s1 = "s\<lparr>in_buffer := in_buffer s @ bs\<rparr>"
    let ?raw = "first_line (in_buffer s @ bs)"
    let ?s2 = "?s1\<lparr>in_buffer := drop (length ?raw) (in_buffer s @ bs)\<rparr>"
    have u1: "usable ?s1" and u2: "usable ?s2"
      using Cons.prems by (simp_all add: usable_def)
    note ih1 = Cons.IH [OF u1] and ih2 = Cons.IH [OF u2]
    show ?thesis
    proof (cases "in_buffer s @ bs = []")
      case True
      then show ?thesis
        using Cons.prems ih1
        by (simp add: tk Arrive deliver_def in_waiting_def first_line_Nil strip_Nil
            decode_ignore_Nil Let_def usable_def line_of_def rest_after_def)
    next
      case False
      then show ?thesis
        using u1 ih2
        by (simp add: tk Arrive deliver_def in_waiting_def readline_def Let_def
            line_of_def rest_after_def)
    qed
  qed
qed

lemma prompt_not_terminal: "py ''>'' \<notin> set terminal_tokens"
  by (simp add: py_def terminal_tokens_def)

lemma success_terminal: "t \<in> set success_tokens \<Longrightarrow> t \<in> set terminal_tokens"
  by (auto simp: success_tokens_def terminal_tokens_def)

lemma stop_rule_stop:
  "\<forall>l\<in>set pre. \<not> stops ep l \<Longrightarrow> stops ep t \<Longrightarrow>
   stop_rule ep (map Inr pre @ Inr t # later) acc
     = Inr ((ep \<and> t = py ''>'') \<or> t \<in> set success_tokens, acc @ pre @ [t])"
  by (induction pre arbitrary: acc) (auto simp: stops_def dest: success_terminal)

lemma stop_rule_none:
  "\<forall>l\<in>set ls. \<not> stops ep l \<Longrightarrow> stop_rule ep (map Inr ls) acc = Inr (False, acc @ ls)"
  by (induction ls arbitrary: acc) (auto simp: stops_def)

lemma stop_rule_fault:
  "\<forall>l\<in>set pre. \<not> stops ep l \<Longrightarrow> stop_rule ep (map Inr pre @ Inl e # later) acc = Inl e"
  by (induction pre arbitrary: acc) (auto simp: stops_def)

lemma upto_first_Nil: "upto_first P [] = []"
  by (simp add: upto_first_def)

lemma upto_first_Cons: "upto_first P (x # xs) = (if P x then [x] else x # upto_first P xs)"
  by (simp add: upto_first_def)

lemma stop_rule_lines:
  "tail = [] \<or> (\<exists>l\<in>set ls. stops ep l) \<Longrightarrow>
   \<exists>b. stop_rule ep (map Inr ls @ tail) acc = Inr (b, acc @ upto_first (stops ep) ls)"
proof (induction ls arbitrary: acc)
  case Nil
  then show ?case by (auto simp: upto_first_Nil)
next
  case (Cons l ls)
  show ?case
  proof (cases "stops ep l")
    case True
    then show ?thesis by (auto simp: upto_first_Cons stops_def)
  next
    case False
    with Cons.prems have "tail = [] \<or> (\<exists>l\<in>set ls. stops ep l)" by auto
    from Cons.IH [OF this, of "acc @ [l]"] False show ?thesis
      by (auto simp: upto_first_Cons stops_def)
  qed
qed

lemma send_command_result:
  "fst (send_command self command targ ep ticks)
     = (if ready (serial_conn self) command
        then (case stop_rule ep (incoming self targ ticks) [] of
                Inl e \<Rightarrow> (False, [])
              | Inr r \<Rightarrow> r)
        else (False, []))"
proof (cases "serial_conn self")
  case None
  then show ?thesis by (simp add: send_command_def ready_def)
next
  case (Some c)
  show ?thesis
  proof (cases "usable c")
    case False
    then show ?thesis
      using Some
      by (auto simp: send_command_def ready_def send_command_body_def
          reset_input_buffer_def Let_def usable_def)
  next
    case True
    show ?thesis
    proof (cases "encode_utf8 (command @ [0x0D, 0x0A])")
      case (Inl e)
      then show ?thesis
        using Some True
        by (simp add: send_command_def ready_def send_command_body_def
            reset_input_buffer_def Let_def usable_def)
    next
      case (Inr bs)
      let ?s2 = "c\<lparr>in_buffer := [], out_bytes := out_bytes c @ bs\<rparr>"
      let ?tmo = "of_int (timeout_or targ (timeout self)) :: real"
      have u: "usable ?s2" using True by (simp add: usable_def)
      have body: "send_command_body c command ?tmo ep ticks
                    = send_command_loop ep ?tmo ?s2 ticks []"
        using True Inr
        by (simp add: send_command_body_def reset_input_buffer_def write_port_def usable_def)
      have loop: "fst (send_command_loop ep ?tmo ?s2 ticks [])
                    = stop_rule ep (incoming self targ ticks) []"
        using send_command_loop_stream [OF u] by (simp add: incoming_def)
      have rdy: "ready (serial_conn self) command"
        using Some True Inr by (simp add: ready_def)
      obtain r s' where rs: "send_command_loop ep ?tmo ?s2 ticks [] = (r, s')"
        by (cases "send_command_loop ep ?tmo ?s2 ticks []")
      with loop have r: "r = stop_rule ep (incoming self targ ticks) []" by simp
      show ?thesis
        using Some True rdy body rs r
        by (simp add: send_command_def Let_def usable_def split: sum.splits)
    qed
  qed
qed

lemma send_at_command_body_result:
  "usable c \<Longrightarrow> encode_utf8 (command @ [0x0D, 0x0A]) = Inr bs \<Longrightarrow>
   fst (send_at_command_body c command tmo ticks)
     = (case stop_rule False (line_stream tmo (in_buffer c) ticks) [] of
          Inl e \<Rightarrow> Inl e
        | Inr (ok, ls) \<Rightarrow> Inr (ok, if ls \<noteq> [] then join_lines ls else py ''TIMEOUT''))"
proof -
  assume u: "usable c" and e: "encode_utf8 (command @ [0x0D, 0x0A]) = Inr bs"
  let ?s1 = "c\<lparr>out_bytes := out_bytes c @ bs\<rparr>"
  have u1: "usable ?s1" using u by (simp add: usable_def)
  have "send_at_command_body c command tmo ticks = send_at_command_loop tmo ?s1 ticks []"
    using u e by (simp add: send_at_command_body_def write_port_def)
  then show ?thesis
    using send_at_command_loop_stream [OF u1, of tmo ticks "[]"] by simp
qed


section \<open>Properties\<close>

subsection \<open>The timeout\<close>

text \<open>
  C6. The timeout is a function of the byte count alone: length 0 gives 300000 ms, every
  positive length \<open>n\<close> gives \<open>max 300000 (min 3600000 (60000 + n * 2000 div 51200))\<close> ms,
  one mebibyte gives the 5-minute floor and one gibibyte the 60-minute ceiling.
\<close>

theorem calculate_timeout_ms_spec:
  "calculate_timeout_ms 0 = 300000
   \<and> (\<forall>n. 0 < n \<longrightarrow>
         calculate_timeout_ms n = max 300000 (min 3600000 (60000 + n * 2000 div 51200)))
   \<and> calculate_timeout_ms (2 ^ 20) = 300000
   \<and> calculate_timeout_ms (2 ^ 30) = 3600000"
  by (simp add: calculate_timeout_ms_def Let_def base_timeout_ms_def
      min_speed_bytes_per_sec_def max_timeout_ms_def min_timeout_ms_def)

theorem calculate_timeout_ms_spec_witness:
  "(0::int) < 104857600 \<and> calculate_timeout_ms 104857600 = 3600000"
proof -
  have "calculate_timeout_ms 104857600
          = max 300000 (min 3600000 (60000 + 104857600 * 2000 div 51200))"
    using calculate_timeout_ms_spec by simp
  then show ?thesis by simp
qed

subsection \<open>Transactions\<close>

text \<open>The definitions that evaluate a transaction on given ticks.\<close>

lemmas run_defs =
  wire_def port_with_def atbn_on_def at_on_def py_def incoming_def timeout_or_def
  first_line_def strip_def isspace_def decode_ignore_def ready_def usable_def
  line_of_def rest_after_def
  encode_utf8_def encode_point_def terminal_tokens_def success_tokens_def stops_def

text \<open>
  C1. In \<^verbatim>\<open>ATBNTester.send_command\<close> and in \<^verbatim>\<open>SimpleATTester.send_at_command\<close>
  collection ends at the first line read that is one of the four terminal tokens: the
  lines read before it and the token itself are returned, and the call reports success
  exactly when the token is \<^verbatim>\<open>OK\<close> or \<^verbatim>\<open>SEND OK\<close>. (With a prompt expected, a
  \<^verbatim>\<open>>\<close> line read earlier ends the call first, so the lines before the token hold
  none.)
\<close>

theorem terminal_line_ends_transaction:
  assumes "t \<in> set terminal_tokens"
  shows
    "(ready (serial_conn self) command
        \<and> incoming self timeout_arg ticks = map Inr pre @ Inr t # later
        \<and> (\<forall>l\<in>set pre. \<not> stops expect_data_prompt l)
      \<longrightarrow> fst (send_command self command timeout_arg expect_data_prompt ticks)
            = (t = py ''OK'' \<or> t = py ''SEND OK'', pre @ [t]))
     \<and> (conn tester = Some c \<and> ready (Some c) command
        \<and> line_stream (of_int (conn_timeout tester)) (in_buffer c) ticks'
            = map Inr pre' @ Inr t # later'
        \<and> (\<forall>l\<in>set pre'. l \<notin> set terminal_tokens)
      \<longrightarrow> fst (simple_send_at_command tester command ticks')
            = Inr (t = py ''OK'' \<or> t = py ''SEND OK'', join_lines (pre' @ [t])))"
proof (intro conjI impI)
  have t_ok: "t \<in> set success_tokens \<longleftrightarrow> t = py ''OK'' \<or> t = py ''SEND OK''"
    by (auto simp: success_tokens_def)
  have t_np: "t \<noteq> py ''>''"
    using assms prompt_not_terminal by auto
  {
    assume h: "ready (serial_conn self) command
        \<and> incoming self timeout_arg ticks = map Inr pre @ Inr t # later
        \<and> (\<forall>l\<in>set pre. \<not> stops expect_data_prompt l)"
    have st: "stops expect_data_prompt t"
      using assms by (simp add: stops_def)
    from h st show "fst (send_command self command timeout_arg expect_data_prompt ticks)
            = (t = py ''OK'' \<or> t = py ''SEND OK'', pre @ [t])"
      by (simp add: send_command_result stop_rule_stop t_ok t_np)
  }
  {
    assume h: "conn tester = Some c \<and> ready (Some c) command
        \<and> line_stream (of_int (conn_timeout tester)) (in_buffer c) ticks'
            = map Inr pre' @ Inr t # later'
        \<and> (\<forall>l\<in>set pre'. l \<notin> set terminal_tokens)"
    then have u: "usable c"
      and e: "\<exists>bs. encode_utf8 (command @ [0x0D, 0x0A]) = Inr bs"
      by (auto simp: ready_def split: sum.splits)
    then obtain bs where bs: "encode_utf8 (command @ [0x0D, 0x0A]) = Inr bs" by blast
    have ns: "\<forall>l\<in>set pre'. \<not> stops False l"
      using h by (simp add: stops_def)
    have st: "stops False t"
      using assms by (simp add: stops_def)
    from h show "fst (simple_send_at_command tester command ticks')
            = Inr (t = py ''OK'' \<or> t = py ''SEND OK'', join_lines (pre' @ [t]))"
      using send_at_command_body_result [OF u bs, of "of_int (conn_timeout tester)" ticks']
        stop_rule_stop [OF ns st, of later' "[]"]
      by (simp add: simple_send_at_command_def t_ok case_prod_beta)
  }
qed

theorem terminal_line_ends_transaction_witness:
  "fst (send_command (atbn_on (port_with [])) (py ''AT+GMR'') None False
          [(0, Arrive (wire ''+GMR line'')), (0.1, Arrive (wire ''OK''))])
     = (True, [py ''+GMR line'', py ''OK''])
   \<and> fst (send_command (atbn_on (port_with [])) (py ''AT+X'') None True
          [(0, Arrive (wire ''ERROR''))])
     = (False, [py ''ERROR''])
   \<and> fst (simple_send_at_command (at_on (port_with [])) (py ''AT+GMR'')
          [(0, Arrive (wire ''+GMR line'' @ wire ''SEND FAIL'')), (0.1, Arrive [])])
     = Inr (False, join_lines [py ''+GMR line'', py ''SEND FAIL''])"
proof -
  have ok: "py ''OK'' \<in> set terminal_tokens"
    and err: "py ''ERROR'' \<in> set terminal_tokens"
    and sf: "py ''SEND FAIL'' \<in> set terminal_tokens"
    by (simp_all add: terminal_tokens_def)
  have a: "ready (serial_conn (atbn_on (port_with []))) (py ''AT+GMR'')
        \<and> incoming (atbn_on (port_with [])) None
             [(0, Arrive (wire ''+GMR line'')), (0.1, Arrive (wire ''OK''))]
            = map Inr [py ''+GMR line''] @ Inr (py ''OK'') # []
        \<and> (\<forall>l\<in>set [py ''+GMR line'']. \<not> stops False l)"
    by (simp add: run_defs)
  have b: "ready (serial_conn (atbn_on (port_with []))) (py ''AT+X'')
        \<and> incoming (atbn_on (port_with [])) None [(0, Arrive (wire ''ERROR''))]
            = map Inr [] @ Inr (py ''ERROR'') # []
        \<and> (\<forall>l\<in>set []. \<not> stops True l)"
    by (simp add: run_defs)
  have c: "conn (at_on (port_with [])) = Some (port_with [])
        \<and> ready (Some (port_with [])) (py ''AT+GMR'')
        \<and> line_stream (of_int (conn_timeout (at_on (port_with [])))) (in_buffer (port_with []))
             [(0, Arrive (wire ''+GMR line'' @ wire ''SEND FAIL'')), (0.1, Arrive [])]
            = map Inr [py ''+GMR line''] @ Inr (py ''SEND FAIL'') # []
        \<and> (\<forall>l\<in>set [py ''+GMR line'']. l \<notin> set terminal_tokens)"
    by (simp add: run_defs)
  from terminal_line_ends_transaction [OF ok, THEN conjunct1, rule_format, OF a]
  have 1: "fst (send_command (atbn_on (port_with [])) (py ''AT+GMR'') None False
          [(0, Arrive (wire ''+GMR line'')), (0.1, Arrive (wire ''OK''))])
     = (True, [py ''+GMR line'', py ''OK''])"
    by simp
  from terminal_line_ends_transaction [OF err, THEN conjunct1, rule_format, OF b]
  have 2: "fst (send_command (atbn_on (port_with [])) (py ''AT+X'') None True
          [(0, Arrive (wire ''ERROR''))])
     = (False, [py ''ERROR''])"
    by (simp add: py_def)
  from terminal_line_ends_transaction [OF sf, THEN conjunct2, rule_format, OF c]
  have 3: "fst (simple_send_at_command (at_on (port_with [])) (py ''AT+GMR'')
          [(0, Arrive (wire ''+GMR line'' @ wire ''SEND FAIL'')), (0.1, Arrive [])])
     = Inr (False, join_lines [py ''+GMR line'', py ''SEND FAIL''])"
    by (simp add: py_def)
  from 1 2 3 show ?thesis by blast
qed

text \<open>
  C2. With \<^verbatim>\<open>expect_data_prompt\<close> set, \<^verbatim>\<open>send_command\<close> returns at the first line
  read that is exactly \<^verbatim>\<open>>\<close>: the result is success, the lines read so far end with
  the prompt line, and whatever follows on the link (\<open>later\<close>: an \<^verbatim>\<open>OK\<close>, an
  \<^verbatim>\<open>ERROR\<close>, a broken link) has no part in it.
\<close>

theorem prompt_ends_transaction:
  assumes "ready (serial_conn self) command"
    and "incoming self timeout_arg ticks = map Inr pre @ Inr (py ''>'') # later"
    and "\<forall>l\<in>set pre. \<not> stops True l"
  shows "fst (send_command self command timeout_arg True ticks) = (True, pre @ [py ''>''])"
proof -
  have "stops True (py ''>'')" by (simp add: stops_def)
  with assms show ?thesis
    by (simp add: send_command_result stop_rule_stop)
qed

theorem prompt_ends_transaction_witness:
  "fst (send_command (atbn_on (port_with [])) (py ''AT+BNCURL'') (Some 30) True
          [(0, Arrive (wire ''busy'')), (0.1, Arrive (wire ''>'' @ wire ''OK'')),
           (0.2, Arrive (wire ''ERROR'')), (0.3, Unplug)])
     = (True, [py ''busy'', py ''>''])"
proof -
  have r: "ready (serial_conn (atbn_on (port_with []))) (py ''AT+BNCURL'')"
    by (simp add: run_defs)
  have i: "incoming (atbn_on (port_with [])) (Some 30)
          [(0, Arrive (wire ''busy'')), (0.1, Arrive (wire ''>'' @ wire ''OK'')),
           (0.2, Arrive (wire ''ERROR'')), (0.3, Unplug)]
        = map Inr [py ''busy''] @ Inr (py ''>'') # [Inr (py ''OK''), Inl SerialException]"
    by (simp add: run_defs)
  have n: "\<forall>l\<in>set [py ''busy'']. \<not> stops True l"
    by (simp add: run_defs)
  from prompt_ends_transaction [OF r i n] show ?thesis by simp
qed

text \<open>
  C10. With \<^verbatim>\<open>expect_data_prompt\<close> false a \<^verbatim>\<open>>\<close> line is a response line like any
  other: the call goes on to the deadline, or to the first terminal token, and returns
  the prompt line among the lines.
\<close>

theorem prompt_is_ordinary_when_not_expected:
  assumes "ready (serial_conn self) command"
    and "\<forall>l\<in>set a \<union> set b. l \<notin> set terminal_tokens"
  shows
    "(incoming self timeout_arg ticks = map Inr (a @ py ''>'' # b)
      \<longrightarrow> fst (send_command self command timeout_arg False ticks)
            = (False, a @ py ''>'' # b))
     \<and> (incoming self timeout_arg ticks = map Inr (a @ py ''>'' # b) @ Inr t # later
        \<and> t \<in> set terminal_tokens
      \<longrightarrow> fst (send_command self command timeout_arg False ticks)
            = (t = py ''OK'' \<or> t = py ''SEND OK'', a @ py ''>'' # b @ [t]))"
proof -
  have ns: "\<forall>l\<in>set (a @ py ''>'' # b). \<not> stops False l"
    using assms(2) prompt_not_terminal by (auto simp: stops_def)
  have t_ok: "t \<in> set success_tokens \<longleftrightarrow> t = py ''OK'' \<or> t = py ''SEND OK''"
    by (auto simp: success_tokens_def)
  show ?thesis
  proof (intro conjI impI)
    assume "incoming self timeout_arg ticks = map Inr (a @ py ''>'' # b)"
    with assms(1) show "fst (send_command self command timeout_arg False ticks)
            = (False, a @ py ''>'' # b)"
      using stop_rule_none [OF ns, of "[]"] by (simp add: send_command_result)
  next
    assume h: "incoming self timeout_arg ticks = map Inr (a @ py ''>'' # b) @ Inr t # later
        \<and> t \<in> set terminal_tokens"
    then have st: "stops False t" by (simp add: stops_def)
    from h assms(1) show "fst (send_command self command timeout_arg False ticks)
            = (t = py ''OK'' \<or> t = py ''SEND OK'', a @ py ''>'' # b @ [t])"
      using stop_rule_stop [OF ns st, of later "[]"] by (simp add: send_command_result t_ok)
  qed
qed

theorem prompt_is_ordinary_when_not_expected_witness:
  "fst (send_command (atbn_on (port_with [])) (py ''AT+BNCURL'') None False
          [(0, Arrive (wire ''busy'')), (0.1, Arrive (wire ''>'')), (0.2, Arrive (wire ''+LEN:5,''))])
     = (False, [py ''busy'', py ''>'', py ''+LEN:5,''])
   \<and> fst (send_command (atbn_on (port_with [])) (py ''AT+BNCURL'') None False
          [(0, Arrive (wire ''busy'')), (0.1, Arrive (wire ''>'')), (0.2, Arrive (wire ''+LEN:5,'')),
           (0.3, Arrive (wire ''SEND OK'')), (0.4, Arrive (wire ''late''))])
     = (True, [py ''busy'', py ''>'', py ''+LEN:5,'', py ''SEND OK''])"
proof -
  have r: "ready (serial_conn (atbn_on (port_with []))) (py ''AT+BNCURL'')"
    by (simp add: run_defs)
  have n: "\<forall>l\<in>set [py ''busy''] \<union> set [py ''+LEN:5,'']. l \<notin> set terminal_tokens"
    by (simp add: run_defs)
  have i1: "incoming (atbn_on (port_with [])) None
          [(0, Arrive (wire ''busy'')), (0.1, Arrive (wire ''>'')), (0.2, Arrive (wire ''+LEN:5,''))]
        = map Inr ([py ''busy''] @ py ''>'' # [py ''+LEN:5,''])"
    by (simp add: run_defs)
  have i2: "incoming (atbn_on (port_with [])) None
          [(0, Arrive (wire ''busy'')), (0.1, Arrive (wire ''>'')), (0.2, Arrive (wire ''+LEN:5,'')),
           (0.3, Arrive (wire ''SEND OK'')), (0.4, Arrive (wire ''late''))]
        = map Inr ([py ''busy''] @ py ''>'' # [py ''+LEN:5,'']) @ Inr (py ''SEND OK'') # [Inr (py ''late'')]
      \<and> py ''SEND OK'' \<in> set terminal_tokens"
    by (simp add: run_defs)
  from prompt_is_ordinary_when_not_expected [OF r n, THEN conjunct1, rule_format, OF i1]
  have 1: "fst (send_command (atbn_on (port_with [])) (py ''AT+BNCURL'') None False
          [(0, Arrive (wire ''busy'')), (0.1, Arrive (wire ''>'')), (0.2, Arrive (wire ''+LEN:5,''))])
     = (False, [py ''busy'', py ''>'', py ''+LEN:5,''])"
    by simp
  from prompt_is_ordinary_when_not_expected [OF r n, THEN conjunct2, rule_format, OF i2]
  have 2: "fst (send_command (atbn_on (port_with [])) (py ''AT+BNCURL'') None False
          [(0, Arrive (wire ''busy'')), (0.1, Arrive (wire ''>'')), (0.2, Arrive (wire ''+LEN:5,'')),
           (0.3, Arrive (wire ''SEND OK'')), (0.4, Arrive (wire ''late''))])
     = (True, [py ''busy'', py ''>'', py ''+LEN:5,'', py ''SEND OK''])"
    by (simp add: py_def)
  from 1 2 show ?thesis by blast
qed

text \<open>The definitions that evaluate a call of a tester step by step.\<close>

lemmas call_defs =
  send_command_def send_command_body_def reset_input_buffer_def write_port_def
  deliver_def in_waiting_def readline_def simple_send_at_command_def
  perf_send_at_command_def send_at_command_body_def

lemma upto_first_none: "\<forall>x\<in>set xs. \<not> P x \<Longrightarrow> upto_first P xs = xs"
  by (induction xs) (simp_all add: upto_first_Nil upto_first_Cons)

text \<open>
  C3. Claimed for every transaction; it fails when the link breaks: the line read before
  the exception is not in the result.
\<close>

theorem observed_line_dropped_counterexample:
  "incoming (atbn_on (port_with [])) None [(0, Arrive (wire ''+GMR line'')), (0.1, Unplug)]
     = [Inr (py ''+GMR line''), Inl SerialException]
   \<and> fst (send_command (atbn_on (port_with [])) (py ''AT+GMR'') None False
          [(0, Arrive (wire ''+GMR line'')), (0.1, Unplug)])
     = (False, [])"
  by (simp add: call_defs run_defs)

text \<open>
  C3, amended. In a transaction that no exception ends (the lines \<open>ls\<close> are read and
  either the deadline follows them or one of them ends the call), the result holds the
  lines read, in the order read, up to and including the line that ends the call, and
  all of them when none does.
\<close>

theorem lines_returned_in_arrival_order:
  assumes "ready (serial_conn self) command"
    and "incoming self timeout_arg ticks = map Inr ls @ tail"
    and "tail = [] \<or> (\<exists>l\<in>set ls. stops expect_data_prompt l)"
  shows "snd (fst (send_command self command timeout_arg expect_data_prompt ticks))
           = upto_first (stops expect_data_prompt) ls
         \<and> ((\<forall>l\<in>set ls. \<not> stops expect_data_prompt l)
              \<longrightarrow> snd (fst (send_command self command timeout_arg expect_data_prompt ticks)) = ls)"
proof -
  from stop_rule_lines [OF assms(3), of "[]"]
  obtain b where "stop_rule expect_data_prompt (map Inr ls @ tail) []
                    = Inr (b, upto_first (stops expect_data_prompt) ls)"
    by auto
  with assms(1,2)
  have 1: "snd (fst (send_command self command timeout_arg expect_data_prompt ticks))
           = upto_first (stops expect_data_prompt) ls"
    by (simp add: send_command_result)
  have "(\<forall>l\<in>set ls. \<not> stops expect_data_prompt l)
          \<Longrightarrow> upto_first (stops expect_data_prompt) ls = ls"
    by (rule upto_first_none)
  with 1 show ?thesis by simp
qed

theorem lines_returned_in_arrival_order_witness:
  "snd (fst (send_command (atbn_on (port_with [])) (py ''AT+GMR'') None False
          [(0, Arrive (wire ''+LEN:5,'' @ wire ''SEND OK'' @ wire ''late'')),
           (0.1, Arrive (wire ''+POST:5,'')), (0.2, Unplug)]))
     = [py ''+LEN:5,'', py ''SEND OK'']"
proof -
  have r: "ready (serial_conn (atbn_on (port_with []))) (py ''AT+GMR'')"
    by (simp add: run_defs)
  have i: "incoming (atbn_on (port_with [])) None
          [(0, Arrive (wire ''+LEN:5,'' @ wire ''SEND OK'' @ wire ''late'')),
           (0.1, Arrive (wire ''+POST:5,'')), (0.2, Unplug)]
        = map Inr [py ''+LEN:5,'', py ''SEND OK''] @ [Inl SerialException]"
    by (simp add: run_defs)
  have s: "[Inl SerialException] = [] \<or> (\<exists>l\<in>set [py ''+LEN:5,'', py ''SEND OK'']. stops False l)"
    by (simp add: run_defs)
  have u: "upto_first (stops False) [py ''+LEN:5,'', py ''SEND OK'']
             = [py ''+LEN:5,'', py ''SEND OK'']"
    by (simp add: upto_first_def run_defs)
  from lines_returned_in_arrival_order [OF r i s, THEN conjunct1] u show ?thesis by simp
qed

text \<open>
  C4. Claimed for every failure; it fails for a transport failure: two lines are read,
  then the link breaks, and the result carries neither.
\<close>

theorem partial_output_discarded_counterexample:
  "incoming (atbn_on (port_with [])) None
       [(0, Arrive (wire ''+CWJAP:1'')), (0.1, Arrive (wire ''busy p...'')), (0.2, Unplug)]
     = [Inr (py ''+CWJAP:1''), Inr (py ''busy p...''), Inl SerialException]
   \<and> fst (send_command (atbn_on (port_with [])) (py ''AT+CWJAP'') None False
          [(0, Arrive (wire ''+CWJAP:1'')), (0.1, Arrive (wire ''busy p...'')), (0.2, Unplug)])
     = (False, [])"
  by (simp add: call_defs run_defs)

text \<open>
  C4, amended. A transaction that ends at the deadline, or at \<^verbatim>\<open>ERROR\<close> or
  \<^verbatim>\<open>SEND FAIL\<close>, returns failure with all the lines collected up to that point. One
  that an exception ends (the link breaks while reading, or the call cannot flush,
  encode or write) returns failure with an empty list.
\<close>

theorem failure_keeps_lines_unless_exception:
  "(ready (serial_conn self) command \<and> (\<forall>l\<in>set pre. \<not> stops expect_data_prompt l)
      \<longrightarrow>
        (incoming self timeout_arg ticks = map Inr pre
          \<longrightarrow> fst (send_command self command timeout_arg expect_data_prompt ticks)
                = (False, pre))
      \<and> (incoming self timeout_arg ticks = map Inr pre @ Inr t # later
           \<and> (t = py ''ERROR'' \<or> t = py ''SEND FAIL'')
          \<longrightarrow> fst (send_command self command timeout_arg expect_data_prompt ticks)
                = (False, pre @ [t]))
      \<and> (incoming self timeout_arg ticks = map Inr pre @ Inl e # later
          \<longrightarrow> fst (send_command self command timeout_arg expect_data_prompt ticks)
                = (False, [])))
   \<and> (\<not> ready (serial_conn self) command
      \<longrightarrow> fst (send_command self command timeout_arg expect_data_prompt ticks) = (False, []))"
proof (intro conjI impI)
  assume "\<not> ready (serial_conn self) command"
  then show "fst (send_command self command timeout_arg expect_data_prompt ticks) = (False, [])"
    by (simp add: send_command_result)
next
  assume h: "ready (serial_conn self) command \<and> (\<forall>l\<in>set pre. \<not> stops expect_data_prompt l)"
    and i: "incoming self timeout_arg ticks = map Inr pre"
  then show "fst (send_command self command timeout_arg expect_data_prompt ticks) = (False, pre)"
    by (simp add: send_command_result stop_rule_none)
next
  assume h: "ready (serial_conn self) command \<and> (\<forall>l\<in>set pre. \<not> stops expect_data_prompt l)"
    and i: "incoming self timeout_arg ticks = map Inr pre @ Inr t # later
           \<and> (t = py ''ERROR'' \<or> t = py ''SEND FAIL'')"
  then have st: "stops expect_data_prompt t"
    by (auto simp: stops_def terminal_tokens_def)
  from i have nt: "t \<noteq> py ''>''" and ns: "t \<notin> set success_tokens"
    by (auto simp: py_def success_tokens_def)
  from h i st show "fst (send_command self command timeout_arg expect_data_prompt ticks)
                = (False, pre @ [t])"
    by (simp add: send_command_result stop_rule_stop nt ns)
next
  assume h: "ready (serial_conn self) command \<and> (\<forall>l\<in>set pre. \<not> stops expect_data_prompt l)"
    and i: "incoming self timeout_arg ticks = map Inr pre @ Inl e # later"
  then show "fst (send_command self command timeout_arg expect_data_prompt ticks) = (False, [])"
    by (simp add: send_command_result stop_rule_fault)
qed

theorem failure_keeps_lines_unless_exception_witness:
  "fst (send_command (atbn_on (port_with [])) (py ''AT+CWJAP'') (Some 1) False
          [(0, Arrive (wire ''+CWJAP:1'')), (0.5, Arrive (wire ''busy p...'')),
           (1.1, Arrive (wire ''OK''))])
     = (False, [py ''+CWJAP:1'', py ''busy p...''])
   \<and> fst (send_command (atbn_on (port_with [])) (py ''AT+CWJAP'') None False
          [(0, Arrive (wire ''+CWJAP:1'')), (0.1, Arrive (wire ''SEND FAIL''))])
     = (False, [py ''+CWJAP:1'', py ''SEND FAIL''])
   \<and> fst (send_command (atbn_on (port_with [])) (py ''AT+CWJAP'') None False
          [(0, Arrive (wire ''+CWJAP:1'')), (0.1, Unplug)])
     = (False, [])
   \<and> fst (send_command (atbn_on ((port_with []) \<lparr>alive := False\<rparr>)) (py ''AT+CWJAP'') None False
          [(0, Arrive (wire ''OK''))])
     = (False, [])"
proof -
  let ?T = "atbn_on (port_with [])"
  let ?c = "py ''AT+CWJAP''"
  have r: "ready (serial_conn ?T) ?c \<and> (\<forall>l\<in>set [py ''+CWJAP:1'', py ''busy p...'']. \<not> stops False l)"
    by (simp add: run_defs)
  have r1: "ready (serial_conn ?T) ?c \<and> (\<forall>l\<in>set [py ''+CWJAP:1'']. \<not> stops False l)"
    by (simp add: run_defs)
  have i1: "incoming ?T (Some 1)
          [(0, Arrive (wire ''+CWJAP:1'')), (0.5, Arrive (wire ''busy p...'')),
           (1.1, Arrive (wire ''OK''))]
        = map Inr [py ''+CWJAP:1'', py ''busy p...'']"
    by (simp add: run_defs)
  have i2: "incoming ?T None
          [(0, Arrive (wire ''+CWJAP:1'')), (0.1, Arrive (wire ''SEND FAIL''))]
        = map Inr [py ''+CWJAP:1''] @ Inr (py ''SEND FAIL'') # []
      \<and> (py ''SEND FAIL'' = py ''ERROR'' \<or> py ''SEND FAIL'' = py ''SEND FAIL'')"
    by (simp add: run_defs)
  have i3: "incoming ?T None [(0, Arrive (wire ''+CWJAP:1'')), (0.1, Unplug)]
        = map Inr [py ''+CWJAP:1''] @ Inl SerialException # []"
    by (simp add: run_defs)
  have n: "\<not> ready (serial_conn (atbn_on ((port_with []) \<lparr>alive := False\<rparr>))) ?c"
    by (simp add: run_defs)
  note a = failure_keeps_lines_unless_exception [THEN conjunct1, rule_format, OF r, THEN conjunct1, rule_format, OF i1]
  note b = failure_keeps_lines_unless_exception [THEN conjunct1, rule_format, OF r1, THEN conjunct2, THEN conjunct1, rule_format, OF i2]
  note c = failure_keeps_lines_unless_exception [THEN conjunct1, rule_format, OF r1, THEN conjunct2, THEN conjunct2, rule_format, OF i3]
  note d = failure_keeps_lines_unless_exception [THEN conjunct2, rule_format, OF n]
  from a b c d show ?thesis by simp
qed

text \<open>
  C5. Claimed: a transport failure can be told apart from a timeout by the returned
  value. It cannot: a call on which the link breaks and a call that meets its deadline
  with no line read return the same value.
\<close>

theorem link_failure_looks_like_timeout_counterexample:
  "incoming (atbn_on (port_with [])) None [(0, Unplug)] = [Inl SerialException]
   \<and> incoming (atbn_on (port_with [])) None [(0, Arrive []), (10, Arrive (wire ''OK''))] = []
   \<and> fst (send_command (atbn_on (port_with [])) (py ''AT'') None False [(0, Unplug)])
     = (False, [])
   \<and> fst (send_command (atbn_on (port_with [])) (py ''AT'') None False
          [(0, Arrive []), (10, Arrive (wire ''OK''))])
     = (False, [])"
  by (simp add: call_defs run_defs)

text \<open>
  C5, amended. The result is the pair \<open>(success, response_lines)\<close> and nothing else. A
  deadline expiry returns \<open>(False, lines)\<close> with no terminal token among the lines; a
  device \<^verbatim>\<open>ERROR\<close> or \<^verbatim>\<open>SEND FAIL\<close> returns \<open>(False, lines)\<close> ending in that
  token, so these two always differ. A transport failure returns \<open>(False, [])\<close>: it
  differs from a device error, and it equals the result of a deadline expiry exactly when
  that one collected no line.
\<close>

theorem failure_causes_in_result:
  assumes "ready (serial_conn A) ca"
    and "incoming A ta ka = map Inr ls"
    and "\<forall>l\<in>set ls. \<not> stops ea l"
    and "ready (serial_conn B) cb"
    and "incoming B tb kb = map Inr pre @ Inr t # later"
    and "t = py ''ERROR'' \<or> t = py ''SEND FAIL''"
    and "\<forall>l\<in>set pre. \<not> stops eb l"
    and "ready (serial_conn C) cc"
    and "incoming C tc kc = map Inr pre' @ Inl e # later'"
    and "\<forall>l\<in>set pre'. \<not> stops ec l"
  shows "fst (send_command A ca ta ea ka) = (False, ls)
       \<and> fst (send_command B cb tb eb kb) = (False, pre @ [t])
       \<and> fst (send_command C cc tc ec kc) = (False, [])
       \<and> fst (send_command A ca ta ea ka) \<noteq> fst (send_command B cb tb eb kb)
       \<and> fst (send_command C cc tc ec kc) \<noteq> fst (send_command B cb tb eb kb)
       \<and> (fst (send_command C cc tc ec kc) = fst (send_command A ca ta ea ka) \<longleftrightarrow> ls = [])"
proof -
  have a: "fst (send_command A ca ta ea ka) = (False, ls)"
    using assms(1-3) by (simp add: send_command_result stop_rule_none)
  have tt: "t \<in> set terminal_tokens"
    using assms(6) by (auto simp: terminal_tokens_def)
  then have st: "stops eb t" by (simp add: stops_def)
  have nt: "t \<noteq> py ''>''" and ns: "t \<notin> set success_tokens"
    using assms(6) by (auto simp: py_def success_tokens_def)
  have b: "fst (send_command B cb tb eb kb) = (False, pre @ [t])"
    using assms(4,5,7) st by (simp add: send_command_result stop_rule_stop nt ns)
  have c: "fst (send_command C cc tc ec kc) = (False, [])"
    using assms(8-10) by (simp add: send_command_result stop_rule_fault)
  have "ls \<noteq> pre @ [t]"
  proof
    assume "ls = pre @ [t]"
    then have "t \<in> set ls" by simp
    with assms(3) have "\<not> stops ea t" by blast
    with tt show False by (simp add: stops_def)
  qed
  with a b c show ?thesis by auto
qed

theorem failure_causes_in_result_witness:
  "fst (send_command (atbn_on (port_with [])) (py ''AT+A'') (Some 1) False
          [(0, Arrive (wire ''busy p...'')), (1, Arrive (wire ''OK''))])
     = (False, [py ''busy p...''])
   \<and> fst (send_command (atbn_on (port_with [])) (py ''AT+B'') None True
          [(0, Arrive (wire ''busy p...'')), (0.1, Arrive (wire ''ERROR''))])
     = (False, [py ''busy p...'', py ''ERROR''])
   \<and> fst (send_command (atbn_on (port_with [])) (py ''AT+C'') None False
          [(0, Arrive (wire ''busy p...'')), (0.1, Unplug)])
     = (False, [])"
proof -
  let ?T = "atbn_on (port_with [])"
  have a1: "ready (serial_conn ?T) (py ''AT+A'')"
    and b1: "ready (serial_conn ?T) (py ''AT+B'')"
    and c1: "ready (serial_conn ?T) (py ''AT+C'')"
    by (simp_all add: run_defs)
  have a2: "incoming ?T (Some 1) [(0, Arrive (wire ''busy p...'')), (1, Arrive (wire ''OK''))]
              = map Inr [py ''busy p...'']"
    by (simp add: run_defs)
  have a3: "\<forall>l\<in>set [py ''busy p...'']. \<not> stops False l"
    and b4: "\<forall>l\<in>set [py ''busy p...'']. \<not> stops True l"
    by (simp_all add: run_defs)
  have b2: "incoming ?T None [(0, Arrive (wire ''busy p...'')), (0.1, Arrive (wire ''ERROR''))]
              = map Inr [py ''busy p...''] @ Inr (py ''ERROR'') # []"
    by (simp add: run_defs)
  have b3: "py ''ERROR'' = py ''ERROR'' \<or> py ''ERROR'' = py ''SEND FAIL''"
    by simp
  have c2: "incoming ?T None [(0, Arrive (wire ''busy p...'')), (0.1, Unplug)]
              = map Inr [py ''busy p...''] @ Inl SerialException # []"
    by (simp add: run_defs)
  from failure_causes_in_result [OF a1 a2 a3 b1 b2 b3 b4 c1 c2 a3]
  show ?thesis by simp
qed

subsection \<open>Stale input\<close>

text \<open>
  C8. \<^verbatim>\<open>PerformanceTester.send_at_command\<close> writes the command without flushing the
  input buffer. With an \<^verbatim>\<open>OK\<close> left over from an earlier exchange in the buffer and a
  device that sends nothing, it reports success with the stale line as the response;
  \<^verbatim>\<open>ATBNTester.send_command\<close>, which flushes first, reports the timeout.
\<close>

theorem stale_input_answers_send_at_command:
  "fst (perf_send_at_command (at_on (port_with (wire ''OK''))) (py ''AT+BNSD_MOUNT'') None
          [(0, Arrive []), (0.1, Arrive [])])
     = Inr (True, py ''OK'')
   \<and> fst (send_command (atbn_on (port_with (wire ''OK''))) (py ''AT+BNSD_MOUNT'') None False
          [(0, Arrive []), (0.1, Arrive [])])
     = (False, [])"
  by (simp add: call_defs run_defs)

text \<open>
  The flush of \<^verbatim>\<open>ATBNTester.send_command\<close>: the result of a call does not depend on
  what the input buffer held when it started.
\<close>

theorem send_command_flushes_stale_input:
  "fst (send_command \<lparr>serial_conn = Some (c\<lparr>in_buffer := stale\<rparr>), timeout = d\<rparr>
          command timeout_arg expect_data_prompt ticks)
     = fst (send_command \<lparr>serial_conn = Some (c\<lparr>in_buffer := []\<rparr>), timeout = d\<rparr>
          command timeout_arg expect_data_prompt ticks)"
  by (simp add: send_command_result ready_def usable_def incoming_def)

subsection \<open>Decoding only deletes bytes\<close>

lemma mod_64_low: "z < 64 \<Longrightarrow> (a * 64 + z) mod 64 = (z::nat)"
  by simp

lemma encode_point_1: "b < 0x80 \<Longrightarrow> encode_point b = Some [b]"
  by (simp add: encode_point_def)

lemma encode_point_2:
  assumes "0xC2 \<le> b" "b < 0xE0" "is_continuation c"
  shows "encode_point ((b - 0xC0) * 64 + (c - 0x80)) = Some [b, c]"
proof -
  define x y where "x = b - 192" and "y = c - 128"
  have x: "b = 192 + x" and y: "c = 128 + y"
    using assms by (simp_all add: x_def y_def is_continuation_def)
  have xb: "2 \<le> x" "x < 32" and yb: "y < 64"
    using assms x y by (auto simp: is_continuation_def)
  have d: "(x * 64 + y) div 64 = x" and m: "(x * 64 + y) mod 64 = y"
    using yb by simp_all
  have lo: "\<not> x * 64 + y < 128" and hi: "x * 64 + y < 2048"
    using xb yb by simp_all
  show ?thesis
    using d m lo hi by (simp add: encode_point_def x y)
qed

lemma encode_point_3:
  assumes "0xE0 \<le> b" "b < 0xF0" "\<not> bad_second3 b c" "is_continuation d"
  shows "encode_point ((b - 0xE0) * 4096 + (c - 0x80) * 64 + (d - 0x80)) = Some [b, c, d]"
proof -
  define x y z where "x = b - 224" and "y = c - 128" and "z = d - 128"
  have x: "b = 224 + x" and y: "c = 128 + y" and z: "d = 128 + z"
    using assms by (simp_all add: x_def y_def z_def is_continuation_def bad_second3_def)
  have xb: "x < 16" and yb: "y < 64" and zb: "z < 64"
    and e0: "x = 0 \<Longrightarrow> 32 \<le> y" and ed: "x = 13 \<Longrightarrow> y < 32"
    using assms x y z by (auto simp: is_continuation_def bad_second3_def split: if_splits)
  let ?cp = "x * 4096 + y * 64 + z"
  have d1: "?cp div 4096 = x"
    using yb zb by simp
  have d2: "?cp div 64 = x * 64 + y"
    using zb by simp
  have d3: "?cp div 64 mod 64 = y"
    using yb by (simp add: d2)
  have e: "?cp = (x * 64 + y) * 64 + z" by simp
  have m: "?cp mod 64 = z"
    unfolding e using zb by (rule mod_64_low)
  have lo: "\<not> ?cp < 2048" using e0 by (cases "x = 0") auto
  have hi: "?cp < 65536" using xb yb zb by simp
  have ns: "\<not> (55296 \<le> ?cp \<and> ?cp \<le> 57343)"
  proof (cases "x = 13")
    case True
    with ed zb show ?thesis by simp
  next
    case False
    then consider "x \<le> 12" | "14 \<le> x" by linarith
    then show ?thesis using yb zb by cases simp_all
  qed
  have lo': "\<not> ?cp < 128" using lo by simp
  show ?thesis
    using d1 d3 m lo lo' hi ns by (simp add: encode_point_def x y z)
qed

lemma encode_point_4:
  assumes "0xF0 \<le> b" "b < 0xF5" "\<not> bad_second4 b c" "is_continuation d" "is_continuation e"
  shows "encode_point ((b - 0xF0) * 262144 + (c - 0x80) * 4096 + (d - 0x80) * 64 + (e - 0x80))
           = Some [b, c, d, e]"
proof -
  define x y z w where "x = b - 240" and "y = c - 128" and "z = d - 128" and "w = e - 128"
  have x: "b = 240 + x" and y: "c = 128 + y" and z: "d = 128 + z" and w: "e = 128 + w"
    using assms by (simp_all add: x_def y_def z_def w_def is_continuation_def bad_second4_def)
  have xb: "x < 5" and yb: "y < 64" and zb: "z < 64" and wb: "w < 64"
    and f0: "x = 0 \<Longrightarrow> 16 \<le> y" and f4: "x = 4 \<Longrightarrow> y < 16"
    using assms x y z w by (auto simp: is_continuation_def bad_second4_def split: if_splits)
  let ?cp = "x * 262144 + y * 4096 + z * 64 + w"
  have d1: "?cp div 262144 = x"
    using yb zb wb by simp
  have d2: "?cp div 4096 = x * 64 + y"
    using zb wb by simp
  have d3: "?cp div 4096 mod 64 = y"
    using yb by (simp add: d2)
  have d4: "?cp div 64 = x * 4096 + y * 64 + z"
    using wb by simp
  have e': "x * 4096 + y * 64 + z = (x * 64 + y) * 64 + z" by simp
  have "(x * 4096 + y * 64 + z) mod 64 = z"
    unfolding e' using zb by (rule mod_64_low)
  then have d5: "?cp div 64 mod 64 = z"
    by (simp add: d4)
  have e: "?cp = (x * 4096 + y * 64 + z) * 64 + w" by simp
  have m: "?cp mod 64 = w"
    unfolding e using wb by (rule mod_64_low)
  have lo: "\<not> ?cp < 65536" using f0 by (cases "x = 0") auto
  have hi: "?cp < 1114112"
  proof (cases "x = 4")
    case True
    with f4 zb wb show ?thesis by simp
  next
    case False
    with xb have "x \<le> 3" by simp
    then show ?thesis using yb zb wb by simp
  qed
  have lo1: "\<not> ?cp < 128" and lo2: "\<not> ?cp < 2048" using lo by simp_all
  show ?thesis
    using d1 d3 d5 m lo lo1 lo2 hi by (simp add: encode_point_def x y z w)
qed


lemma deletes_only_keep:
  assumes "encode_point cp = Some pre" "deletes_only rest"
    and "utf8_ignore ns = cp # utf8_ignore rest" "ns = pre @ rest"
  shows "deletes_only ns"
proof -
  from assms(2) obtain r where r: "utf8_strict (utf8_ignore rest) = Some r" "subseq r rest"
    by (auto simp: deletes_only_def)
  have "utf8_strict (utf8_ignore ns) = Some (pre @ r)"
    using assms(1,3) r(1) by simp
  moreover have "subseq (pre @ r) ns"
    using r(2) assms(4) by (simp add: subseq_append')
  ultimately show ?thesis by (auto simp: deletes_only_def)
qed

lemma deletes_only_drop:
  assumes "deletes_only rest" "utf8_ignore ns = utf8_ignore rest" "ns = pre @ rest"
  shows "deletes_only ns"
proof -
  from assms(1) obtain r where r: "utf8_strict (utf8_ignore rest) = Some r" "subseq r rest"
    by (auto simp: deletes_only_def)
  have "subseq r ns"
    using r(2) assms(3) by (simp add: list_emb_append2)
  with r(1) assms(2) show ?thesis by (auto simp: deletes_only_def)
qed

lemma deletes_only_end:
  assumes "utf8_ignore ns = []"
  shows "deletes_only ns"
  using assms by (simp add: deletes_only_def)

lemma utf8_ignore_deletes_only: "deletes_only ns"
proof (induction ns rule: length_induct)
  case (1 ns)
  then have IH: "\<And>ys. length ys < length ns \<Longrightarrow> deletes_only ys" by blast
  show ?case
  proof (cases ns)
    case Nil
    then show ?thesis by (simp add: deletes_only_end)
  next
    case (Cons b bs)
    have ibs: "deletes_only bs" using IH Cons by simp
    consider (ascii) "b < 0x80" | (stray) "0x80 \<le> b" "b < 0xC2"
      | (two) "0xC2 \<le> b" "b < 0xE0" | (three) "0xE0 \<le> b" "b < 0xF0"
      | (four) "0xF0 \<le> b" "b < 0xF5" | (high) "0xF5 \<le> b"
      by linarith
    then show ?thesis
    proof cases
      case ascii
      show ?thesis
        by (rule deletes_only_keep [OF encode_point_1 [OF ascii] ibs]) (simp_all add: Cons ascii)
    next
      case stray
      show ?thesis
        by (rule deletes_only_drop [OF ibs, where pre = "[b]"]) (use stray in \<open>simp_all add: Cons\<close>)
    next
      case high
      show ?thesis
        by (rule deletes_only_drop [OF ibs, where pre = "[b]"]) (use high in \<open>simp_all add: Cons\<close>)
    next
      case two
      show ?thesis
      proof (cases bs)
        case Nil
        show ?thesis
          by (rule deletes_only_end) (use two in \<open>simp add: Cons Nil\<close>)
      next
        case bs: (Cons c cs)
        have ics: "deletes_only cs" using IH Cons bs by simp
        show ?thesis
        proof (cases "is_continuation c")
          case True
          show ?thesis
            by (rule deletes_only_keep [OF encode_point_2 [OF two True] ics])
              (use two True in \<open>simp_all add: Cons bs\<close>)
        next
          case False
          show ?thesis
            by (rule deletes_only_drop [OF ibs, where pre = "[b]"])
              (use two False in \<open>simp_all add: Cons bs\<close>)
        qed
      qed
    next
      case three
      show ?thesis
      proof (cases bs)
        case Nil
        show ?thesis
          by (rule deletes_only_end) (use three in \<open>simp add: Cons Nil\<close>)
      next
        case bs: (Cons c cs)
        have ics: "deletes_only cs" using IH Cons bs by simp
        show ?thesis
        proof (cases "bad_second3 b c")
          case True
          show ?thesis
            by (rule deletes_only_drop [OF ibs, where pre = "[b]"])
              (use three True in \<open>simp_all add: Cons bs\<close>)
        next
          case ok: False
          show ?thesis
          proof (cases cs)
            case Nil
            show ?thesis
              by (rule deletes_only_end) (use three ok in \<open>simp add: Cons bs Nil\<close>)
          next
            case cs: (Cons d ds)
            have ids: "deletes_only ds" using IH Cons bs cs by simp
            show ?thesis
            proof (cases "is_continuation d")
              case True
              show ?thesis
                by (rule deletes_only_keep [OF encode_point_3 [OF three ok True] ids])
                  (use three ok True in \<open>simp_all add: Cons bs cs\<close>)
            next
              case False
              show ?thesis
                by (rule deletes_only_drop [OF ics, where pre = "[b, c]"])
                  (use three ok False in \<open>simp_all add: Cons bs cs\<close>)
            qed
          qed
        qed
      qed
    next
      case four
      show ?thesis
      proof (cases bs)
        case Nil
        show ?thesis
          by (rule deletes_only_end) (use four in \<open>simp add: Cons Nil\<close>)
      next
        case bs: (Cons c cs)
        have ics: "deletes_only cs" using IH Cons bs by simp
        show ?thesis
        proof (cases "bad_second4 b c")
          case True
          show ?thesis
            by (rule deletes_only_drop [OF ibs, where pre = "[b]"])
              (use four True in \<open>simp_all add: Cons bs\<close>)
        next
          case ok: False
          show ?thesis
          proof (cases cs)
            case Nil
            show ?thesis
              by (rule deletes_only_end) (use four ok in \<open>simp add: Cons bs Nil\<close>)
          next
            case cs: (Cons d ds)
            have ids: "deletes_only ds" using IH Cons bs cs by simp
            show ?thesis
            proof (cases "is_continuation d")
              case False
              show ?thesis
                by (rule deletes_only_drop [OF ics, where pre = "[b, c]"])
                  (use four ok False in \<open>simp_all add: Cons bs cs\<close>)
            next
              case d: True
              show ?thesis
              proof (cases ds)
                case Nil
                show ?thesis
                  by (rule deletes_only_end) (use four ok d in \<open>simp add: Cons bs cs Nil\<close>)
              next
                case ds: (Cons e es)
                have ies: "deletes_only es" using IH Cons bs cs ds by simp
                show ?thesis
                proof (cases "is_continuation e")
                  case True
                  show ?thesis
                    by (rule deletes_only_keep [OF encode_point_4 [OF four ok d True] ies])
                      (use four ok d True in \<open>simp_all add: Cons bs cs ds\<close>)
                next
                  case False
                  show ?thesis
                    by (rule deletes_only_drop [OF ids, where pre = "[b, c, d]"])
                      (use four ok d False in \<open>simp_all add: Cons bs cs ds\<close>)
                qed
              qed
            qed
          qed
        qed
      qed
    qed
  qed
qed

lemma decode_ignore_deletes_only:
  "\<exists>bs. encode_utf8 (decode_ignore raw) = Inr bs \<and> subseq bs raw"
proof -
  from utf8_ignore_deletes_only [of "map unat raw"]
  obtain ns where ns: "utf8_strict (utf8_ignore (map unat raw)) = Some ns"
    "subseq ns (map unat raw)"
    by (auto simp: deletes_only_def)
  have "subseq (map of_nat ns) (map of_nat (map unat raw) :: byte list)"
    using ns(2) by (rule subseq_map)
  then have "subseq (map of_nat ns) raw"
    by (simp add: comp_def)
  with ns(1) show ?thesis
    by (simp add: encode_utf8_def decode_ignore_def)
qed


subsection \<open>Trimmed lines\<close>

lemma last_dropWhile: "dropWhile P xs \<noteq> [] \<Longrightarrow> last (dropWhile P xs) = last xs"
  by (induction xs) (auto split: if_splits)

lemma strip_trimmed:
  assumes "strip s \<noteq> []"
  shows "\<not> isspace (hd (strip s)) \<and> \<not> isspace (last (strip s))"
proof -
  let ?u = "dropWhile isspace s"
  let ?v = "dropWhile isspace (rev ?u)"
  have v: "?v \<noteq> []" using assms by (simp add: strip_def)
  then have u: "?u \<noteq> []"
    by (metis dropWhile.simps(1) rev.simps(1))
  have "last (strip s) = hd ?v"
    using v by (simp add: strip_def last_rev)
  moreover have "\<not> isspace (hd ?v)"
    using v by (rule hd_dropWhile)
  moreover have "hd (strip s) = last ?v"
    using v by (simp add: strip_def hd_rev)
  moreover have "last ?v = last (rev ?u)"
    using v by (rule last_dropWhile)
  moreover have "last (rev ?u) = hd ?u"
    using u by (simp add: last_rev)
  moreover have "\<not> isspace (hd ?u)"
    using u by (rule hd_dropWhile)
  ultimately show ?thesis by simp
qed

lemma stop_rule_lines_from:
  "stop_rule ep xs acc = Inr (b, ls) \<Longrightarrow> set ls \<subseteq> set acc \<union> {l. Inr l \<in> set xs}"
proof (induction ep xs acc rule: stop_rule.induct)
  case (1 ep acc)
  then show ?case by auto
next
  case (2 ep e xs acc)
  then show ?case by simp
next
  case (3 ep line xs acc)
  then show ?case by (auto split: if_splits)
qed

lemma line_stream_lines:
  "Inr l \<in> set (line_stream tmo buf ticks) \<Longrightarrow> l \<noteq> [] \<and> (\<exists>raw. l = strip (decode_ignore raw))"
proof (induction tmo buf ticks rule: line_stream.induct)
  case (1 tmo buf)
  then show ?case by simp
next
  case (2 tmo buf elapsed ticks)
  then show ?case by (simp split: if_splits)
next
  case (3 tmo buf elapsed bs ticks)
  then show ?case by (auto simp: line_of_def split: if_splits)
qed

lemma send_command_lines:
  assumes "l \<in> set (snd (fst (send_command self command timeout_arg ep ticks)))"
  shows "l \<noteq> [] \<and> (\<exists>raw. l = strip (decode_ignore raw))"
proof (cases "ready (serial_conn self) command")
  case False
  with assms show ?thesis by (simp add: send_command_result)
next
  case True
  show ?thesis
  proof (cases "stop_rule ep (incoming self timeout_arg ticks) []")
    case (Inl e)
    with True assms show ?thesis by (simp add: send_command_result)
  next
    case (Inr r)
    obtain b ls where r: "r = (b, ls)" by (cases r)
    from Inr r True assms have "l \<in> set ls" by (simp add: send_command_result)
    with stop_rule_lines_from [OF Inr [unfolded r]]
    have "Inr l \<in> set (incoming self timeout_arg ticks)" by auto
    then show ?thesis
      unfolding incoming_def by (rule line_stream_lines)
  qed
qed

subsection \<open>Response lines\<close>

text \<open>
  C9. Claimed: bytes that are not valid text are replaced by a placeholder. The source
  decodes with \<^verbatim>\<open>errors='ignore'\<close>: the invalid byte \<^verbatim>\<open>0xFF\<close> between \<^verbatim>\<open>A\<close> and
  \<^verbatim>\<open>B\<close> leaves no character behind, and the response line is the two characters
  \<^verbatim>\<open>AB\<close>.
\<close>

theorem invalid_byte_leaves_no_placeholder_counterexample:
  "decode_ignore [0x41, 0xFF, 0x42, 0x0D, 0x0A] = [0x41, 0x42, 0x0D, 0x0A]
   \<and> fst (send_command (atbn_on (port_with [])) (py ''AT'') None False
          [(0, Arrive [0x41, 0xFF, 0x42, 0x0D, 0x0A])])
     = (False, [py ''AB''])
   \<and> length (py ''AB'') = 2"
  by (simp add: call_defs run_defs)

text \<open>
  C9, amended. Decoding never fails and only deletes: the decoded text, encoded again, is
  a subsequence of the bytes received, so the bytes that are not valid UTF-8 are dropped
  and nothing stands in for them. Every response line is the trimmed decoding of the
  bytes of one \<^verbatim>\<open>readline()\<close>; it is not empty and neither begins nor ends with
  white space: an empty result after trimming is never appended.
\<close>

theorem decoding_drops_invalid_bytes_and_trims:
  "(\<exists>bs. encode_utf8 (decode_ignore raw) = Inr bs \<and> subseq bs raw)
   \<and> (\<forall>l\<in>set (snd (fst (send_command self command timeout_arg expect_data_prompt ticks))).
         l \<noteq> [] \<and> \<not> isspace (hd l) \<and> \<not> isspace (last l)
         \<and> (\<exists>raw. l = strip (decode_ignore raw)))"
proof (intro conjI ballI)
  show "\<exists>bs. encode_utf8 (decode_ignore raw) = Inr bs \<and> subseq bs raw"
    by (rule decode_ignore_deletes_only)
next
  fix l
  assume "l \<in> set (snd (fst (send_command self command timeout_arg expect_data_prompt ticks)))"
  from send_command_lines [OF this]
  obtain raw where l: "l \<noteq> []" "l = strip (decode_ignore raw)" by blast
  with strip_trimmed [of "decode_ignore raw"]
  have t: "\<not> isspace (hd l) \<and> \<not> isspace (last l)" by simp
  from l show "l \<noteq> []" by simp
  from t show "\<not> isspace (hd l)" by simp
  from t show "\<not> isspace (last l)" by simp
  from l show "\<exists>raw. l = strip (decode_ignore raw)" by blast
qed

theorem decoding_drops_invalid_bytes_and_trims_witness:
  "py ''AB'' \<in> set (snd (fst (send_command (atbn_on (port_with [])) (py ''AT'') None False
          [(0, Arrive [0x0D, 0x0A, 0x20, 0x41, 0xFF, 0x42, 0x20, 0x0D, 0x0A]), (0.1, Arrive [])])))
   \<and> py ''AB'' \<noteq> [] \<and> \<not> isspace (hd (py ''AB'')) \<and> \<not> isspace (last (py ''AB''))
   \<and> (\<exists>raw. py ''AB'' = strip (decode_ignore raw))"
proof -
  have m: "py ''AB'' \<in> set (snd (fst (send_command (atbn_on (port_with [])) (py ''AT'') None False
          [(0, Arrive [0x0D, 0x0A, 0x20, 0x41, 0xFF, 0x42, 0x20, 0x0D, 0x0A]), (0.1, Arrive [])])))"
    by (simp add: send_command_result run_defs)
  from decoding_drops_invalid_bytes_and_trims [THEN conjunct2, rule_format, OF m] m
  show ?thesis by simp
qed

subsection \<open>Markers and line feeds\<close>

lemma prefix_before_separator:
  assumes "x \<notin> set p"
  shows "prefix p (a @ x # b) \<longleftrightarrow> prefix p a"
proof
  assume "prefix p (a @ x # b)"
  then consider "prefix p a" | us where "p = a @ us" "prefix us (x # b)"
    by (auto simp: prefix_append)
  then show "prefix p a"
  proof cases
    case 1
    then show ?thesis .
  next
    case 2
    with assms have "us = []" by (cases us) auto
    with 2 show ?thesis by simp
  qed
next
  assume "prefix p a"
  then show "prefix p (a @ x # b)" by (rule prefix_prefix)
qed

lemma line_feed_no_digit: "\<not> is_digit uni 10"
  by (simp add: is_digit_def digit_value_def)

lemma takeWhile_before_stop:
  "\<not> P x \<Longrightarrow> takeWhile P (a @ x # b) = takeWhile P a"
  by (induction a) auto

lemma dropWhile_before_stop:
  "\<not> P x \<Longrightarrow> dropWhile P (a @ x # b) = dropWhile P a @ x # b"
  by (induction a) auto

lemma match_at_before_line_feed:
  assumes "10 \<notin> set pre" "10 \<notin> set suf"
  shows "match_at uni pre suf (a @ 10 # b)
           = map_option (\<lambda>(ds, r). (ds, r @ 10 # b)) (match_at uni pre suf a)"
proof (cases "prefix pre a")
  case False
  then show ?thesis
    using assms(1) by (simp add: match_at_def prefix_before_separator)
next
  case True
  then have len: "length pre \<le> length a" by (rule prefix_length_le)
  let ?after = "drop (length pre) a"
  let ?rest = "dropWhile (is_digit uni) ?after"
  have "length suf \<le> length ?rest" if "prefix suf ?rest"
    using that by (rule prefix_length_le)
  then show ?thesis
    using True len assms
    by (simp add: match_at_def prefix_before_separator takeWhile_before_stop
        dropWhile_before_stop line_feed_no_digit Let_def)
qed

lemma match_at_line_feed:
  assumes "10 \<notin> set pre"
  shows "match_at uni pre suf (10 # b) = None"
proof (cases pre)
  case Nil
  then show ?thesis by (simp add: match_at_def line_feed_no_digit)
next
  case (Cons p ps)
  with assms show ?thesis by (auto simp: match_at_def)
qed

lemma re_search_lines:
  assumes "10 \<notin> set pre" "10 \<notin> set suf"
  shows "re_search uni pre suf (a @ 10 # b)
           = (case re_search uni pre suf a of
                Some g \<Rightarrow> Some g
              | None \<Rightarrow> re_search uni pre suf b)"
proof (induction a)
  case Nil
  then show ?case by (simp add: match_at_line_feed [OF assms(1)])
next
  case (Cons c cs)
  have "match_at uni pre suf ((c # cs) @ 10 # b)
          = map_option (\<lambda>(ds, r). (ds, r @ 10 # b)) (match_at uni pre suf (c # cs))"
    by (rule match_at_before_line_feed [OF assms])
  then show ?case
    using Cons.IH by (cases "match_at uni pre suf (c # cs)") auto
qed

lemma re_findall_lines:
  assumes "10 \<notin> set pre" "10 \<notin> set suf"
  shows "re_findall uni pre suf (a @ 10 # b)
           = re_findall uni pre suf a @ re_findall uni pre suf b"
proof (induction a rule: length_induct)
  case (1 a)
  then have IH: "\<And>ys. length ys < length a \<Longrightarrow>
      re_findall uni pre suf (ys @ 10 # b) = re_findall uni pre suf ys @ re_findall uni pre suf b"
    by blast
  show ?case
  proof (cases a)
    case Nil
    then show ?thesis by (simp add: match_at_line_feed [OF assms(1)])
  next
    case (Cons c cs)
    have m: "match_at uni pre suf ((c # cs) @ 10 # b)
          = map_option (\<lambda>(ds, r). (ds, r @ 10 # b)) (match_at uni pre suf (c # cs))"
      by (rule match_at_before_line_feed [OF assms])
    show ?thesis
    proof (cases "match_at uni pre suf (c # cs)")
      case None
      with m IH [of cs] Cons show ?thesis by simp
    next
      case (Some dr)
      obtain ds r where dr: "dr = (ds, r)" by (cases dr)
      from Some dr have "length r < length a"
        using match_at_shorter Cons by blast
      from IH [OF this] m Some dr Cons show ?thesis by simp
    qed
  qed
qed

lemma join_lines_Cons:
  "join_lines (l # ls) = (if ls = [] then l else l @ 10 # join_lines ls)"
  by (cases ls) simp_all

lemma re_search_join_lines:
  assumes "10 \<notin> set pre" "10 \<notin> set suf"
  shows "re_search uni pre suf (join_lines lines) = first_some (re_search uni pre suf) lines"
proof (induction lines)
  case Nil
  then show ?case by simp
next
  case (Cons l ls)
  show ?case
  proof (cases "ls = []")
    case True
    then show ?thesis by (simp split: option.splits)
  next
    case False
    then show ?thesis
      using Cons.IH
      by (simp add: join_lines_Cons re_search_lines [OF assms] split: option.splits)
  qed
qed

lemma re_findall_join_lines:
  assumes "10 \<notin> set pre" "10 \<notin> set suf"
  shows "re_findall uni pre suf (join_lines lines) = concat (map (re_findall uni pre suf) lines)"
proof (induction lines)
  case Nil
  then show ?case by simp
next
  case (Cons l ls)
  show ?case
  proof (cases "ls = []")
    case True
    then show ?thesis by simp
  next
    case False
    then show ?thesis
      using Cons.IH by (simp add: join_lines_Cons re_findall_lines [OF assms])
  qed
qed

lemma first_some_skip:
  "f l = None \<Longrightarrow> first_some f (xs @ l # ys) = first_some f (xs @ ys)"
  by (induction xs) (auto split: option.splits)

lemma markers_without_line_feed:
  "10 \<notin> set (py ''+LEN:'')" "10 \<notin> set (py ''+POST:'')" "10 \<notin> set (py '','')"
  by (simp_all add: py_def)


subsection \<open>Frames\<close>

lemma py_ints_all:
  "py_ints mx uni ms
     = (if \<exists>m\<in>set ms. exceeds_limit mx m then Inl ValueError
        else Inr (map (int_of_digits uni) ms))"
  by (induction ms) (auto simp: py_int_def)

lemma count_sub_Nil: "sub \<noteq> [] \<Longrightarrow> count_sub sub [] = 0"
  by (subst count_sub.simps) simp

lemma drop_within: "n \<le> length xs \<Longrightarrow> drop n (xs @ ys) = drop n xs @ ys"
  by simp

lemma takeWhile_run: "P d \<Longrightarrow> \<not> P s \<Longrightarrow> takeWhile P (replicate n d @ s # ss) = replicate n d"
  by (induction n) simp_all

lemma dropWhile_run: "P d \<Longrightarrow> \<not> P s \<Longrightarrow> dropWhile P (replicate n d @ s # ss) = s # ss"
  by (induction n) simp_all

lemma count_sub_Cons:
  "sub \<noteq> [] \<Longrightarrow>
   count_sub sub (c # cs)
     = (if prefix sub (c # cs) then 1 + count_sub sub (drop (length sub) (c # cs))
        else count_sub sub cs)"
  by (subst count_sub.simps) simp

lemma count_sub_lines:
  assumes "sub \<noteq> []" "10 \<notin> set sub"
  shows "count_sub sub (a @ 10 # b) = count_sub sub a + count_sub sub b"
proof (induction a rule: length_induct)
  case (1 a)
  then have IH: "\<And>ys. length ys < length a \<Longrightarrow>
      count_sub sub (ys @ 10 # b) = count_sub sub ys + count_sub sub b"
    by blast
  show ?case
  proof (cases a)
    case Nil
    have "\<not> prefix sub (10 # b)"
      using assms by (cases sub) auto
    then show ?thesis
      using assms(1) Nil by (simp add: count_sub_Cons count_sub_Nil)
  next
    case (Cons c cs)
    have p: "prefix sub ((c # cs) @ 10 # b) \<longleftrightarrow> prefix sub (c # cs)"
      using assms(2) by (rule prefix_before_separator)
    show ?thesis
    proof (cases "prefix sub (c # cs)")
      case False
      with p IH [of cs] assms(1) Cons show ?thesis
        by (simp add: count_sub_Cons)
    next
      case True
      then have len: "length sub \<le> length (c # cs)" by (rule prefix_length_le)
      have sh: "length (drop (length sub) (c # cs)) < length a"
        using assms(1) Cons by (cases sub) auto
      have d: "drop (length sub) ((c # cs) @ 10 # b) = drop (length sub) (c # cs) @ 10 # b"
        using len by (rule drop_within)
      have "count_sub sub ((c # cs) @ 10 # b)
              = 1 + count_sub sub (drop (length sub) (c # cs) @ 10 # b)"
        using p True assms(1) d by (simp add: count_sub_Cons del: drop_Suc_Cons)
      also have "\<dots> = 1 + (count_sub sub (drop (length sub) (c # cs)) + count_sub sub b)"
        using IH [OF sh] by simp
      also have "\<dots> = count_sub sub (c # cs) + count_sub sub b"
        using True assms(1) by (simp add: count_sub_Cons del: drop_Suc_Cons)
      finally show ?thesis using Cons by simp
    qed
  qed
qed

lemma count_sub_join_lines:
  assumes "sub \<noteq> []" "10 \<notin> set sub"
  shows "count_sub sub (join_lines lines) = sum_list (map (count_sub sub) lines)"
proof (induction lines)
  case Nil
  then show ?case using assms(1) by (simp add: count_sub_Nil)
next
  case (Cons l ls)
  show ?case
  proof (cases "ls = []")
    case True
    then show ?thesis by simp
  next
    case False
    then show ?thesis
      using Cons.IH by (simp add: join_lines_Cons count_sub_lines [OF assms])
  qed
qed

lemma re_search_digit_run:
  assumes "pre \<noteq> []" "is_digit uni d" "0 < n" "\<not> is_digit uni s"
  shows "re_search uni pre (s # ss) (pre @ replicate n d @ s # ss) = Some (replicate n d)"
proof -
  obtain p ps where pre: "pre = p # ps" using assms(1) by (cases pre) auto
  have tw: "takeWhile (is_digit uni) (replicate n d @ s # ss) = replicate n d"
    using assms(2,4) by (rule takeWhile_run)
  have dw: "dropWhile (is_digit uni) (replicate n d @ s # ss) = s # ss"
    using assms(2,4) by (rule dropWhile_run)
  have ne: "replicate n d \<noteq> []" using assms(3) by simp
  have "match_at uni pre (s # ss) (pre @ replicate n d @ s # ss) = Some (replicate n d, [])"
    using tw dw ne by (simp add: match_at_def)
  then show ?thesis
    by (simp add: pre)
qed


lemma search_len_join_lines:
  "search_len uni (join_lines lines) = first_some (search_len uni) lines"
proof -
  have "re_search uni (py ''+LEN:'') (py '','') (join_lines lines)
          = first_some (re_search uni (py ''+LEN:'') (py '','')) lines"
    by (rule re_search_join_lines) (simp_all add: py_def)
  then show ?thesis
    by (simp add: search_len_def [abs_def])
qed

lemma search_saved_join_lines:
  "search_saved uni (join_lines lines) = first_some (search_saved uni) lines"
proof -
  have "re_search uni (py ''File saved ('') (py '' bytes)'') (join_lines lines)
          = first_some (re_search uni (py ''File saved ('') (py '' bytes)'')) lines"
    by (rule re_search_join_lines) (simp_all add: py_def)
  then show ?thesis
    by (simp add: search_saved_def [abs_def])
qed

lemma findall_post_join_lines:
  "findall_post uni (join_lines lines) = concat (map (findall_post uni) lines)"
proof -
  have "re_findall uni (py ''+POST:'') (py '','') (join_lines lines)
          = concat (map (re_findall uni (py ''+POST:'') (py '','')) lines)"
    by (rule re_findall_join_lines) (simp_all add: py_def)
  then show ?thesis
    by (simp add: findall_post_def [abs_def])
qed

lemma count_post_join_lines:
  "count_post (join_lines lines) = sum_list (map count_post lines)"
proof -
  have "count_sub (py ''+POST:'') (join_lines lines)
          = sum_list (map (count_sub (py ''+POST:'')) lines)"
    by (rule count_sub_join_lines) (simp_all add: py_def)
  then show ?thesis
    by (simp add: count_post_def [abs_def])
qed

text \<open>What the two extractions compute, line by line.\<close>

lemma len_post_chunks_by_line:
  "len_post_chunks mx uni lines =
     (case first_some (search_len uni) lines of
        None \<Rightarrow> Inr None
      | Some g \<Rightarrow>
          if exceeds_limit mx g
             \<or> (\<exists>l\<in>set lines. \<exists>m\<in>set (findall_post uni l). exceeds_limit mx m)
          then Inl ValueError
          else
            Inr (Some \<lparr>expected_len = int_of_digits uni g,
                       post_sizes =
                         concat (map (\<lambda>l. map (int_of_digits uni) (findall_post uni l)) lines),
                       total_post_bytes =
                         sum_list (concat (map (\<lambda>l. map (int_of_digits uni)
                                                      (findall_post uni l)) lines))\<rparr>))"
proof -
  have c: "map (int_of_digits uni) (concat (map (findall_post uni) lines))
             = concat (map (\<lambda>l. map (int_of_digits uni) (findall_post uni l)) lines)"
    by (simp add: map_concat comp_def)
  show ?thesis
    unfolding len_post_chunks_def Let_def search_len_join_lines findall_post_join_lines
      py_ints_all
    by (auto simp: py_int_def c split: option.splits)
qed

lemma extract_download_stats_by_line:
  "extract_download_stats mx uni (join_lines lines) =
     (if (\<exists>g. first_some (search_len uni) lines = Some g \<and> exceeds_limit mx g)
         \<or> (\<exists>g. first_some (search_saved uni) lines = Some g \<and> exceeds_limit mx g)
      then Inl ValueError
      else
        Inr (\<lambda>k. if k = ''total_bytes''
                  then map_option (int_of_digits uni) (first_some (search_len uni) lines)
                  else if k = ''saved_bytes''
                  then map_option (int_of_digits uni) (first_some (search_saved uni) lines)
                  else if k = ''chunks_received'' \<and> 0 < sum_list (map count_post lines)
                  then Some (int (sum_list (map count_post lines)))
                  else None))"
  unfolding extract_download_stats_def Let_def search_len_join_lines search_saved_join_lines
    count_post_join_lines
  by (auto simp: store_int_def py_int_def fun_eq_iff split: option.splits)


text \<open>The definitions that evaluate the two extractions on given lines.\<close>

lemmas frame_defs =
  len_post_chunks_def extract_download_stats_def store_int_def py_int_def exceeds_limit_def
  search_len_def findall_post_def search_saved_def count_post_def py_def match_at_def
  is_digit_def digit_value_def int_of_digits_def no_digits_def count_sub_Cons count_sub_Nil

text \<open>
  C7. Claimed for every line sequence: the declared length from a line matching
  \<^verbatim>\<open>+LEN:<digits>,\<close> and one chunk size per line matching \<^verbatim>\<open>+POST:<digits>,\<close>.
  Four inputs show what the source does instead. A line that holds two markers gives two
  chunk sizes: one line matches, two sizes are captured. A sequence without a
  \<^verbatim>\<open>+LEN:\<close> marker gives nothing in \<^verbatim>\<open>test_response_format_len_post_chunks\<close>,
  though a line matches \<^verbatim>\<open>+POST:5,\<close>. \<^verbatim>\<open>extract_download_stats\<close> counts the line
  \<^verbatim>\<open>+POST:abc\<close> as a chunk, though it does not match the pattern. A declared length
  of 4301 digits raises \<^verbatim>\<open>ValueError\<close> on an interpreter with the default limit.
\<close>

theorem frame_parse_counterexample:
  "len_post_chunks 4300 no_digits
       [py ''+LEN:11,'', py ''+POST:5,hello+POST:6,world!'', py ''SEND OK'']
     = Inr (Some \<lparr>expected_len = 11, post_sizes = [5, 6], total_post_bytes = 11\<rparr>)
   \<and> length (filter (\<lambda>l. re_search no_digits (py ''+POST:'') (py '','') l \<noteq> None)
         [py ''+LEN:11,'', py ''+POST:5,hello+POST:6,world!'', py ''SEND OK'']) = 1
   \<and> len_post_chunks 4300 no_digits [py ''+POST:5,'', py ''SEND OK''] = Inr None
   \<and> re_search no_digits (py ''+POST:'') (py '','') (py ''+POST:5,'') = Some (py ''5'')
   \<and> extract_download_stats 4300 no_digits
         (join_lines [py ''+LEN:11,'', py ''+POST:abc'', py ''SEND OK''])
     = Inr [''total_bytes'' \<mapsto> 11, ''chunks_received'' \<mapsto> 1]
   \<and> re_search no_digits (py ''+POST:'') (py '','') (py ''+POST:abc'') = None
   \<and> len_post_chunks 4300 no_digits [py ''+LEN:'' @ replicate 4301 49 @ py '',''] = Inl ValueError"
proof -
  have d: "is_digit no_digits 49" and c: "\<not> is_digit no_digits 44"
    by (simp_all add: is_digit_def digit_value_def)
  have "re_search no_digits (py ''+LEN:'') (44 # []) (py ''+LEN:'' @ replicate 4301 49 @ 44 # [])
          = Some (replicate 4301 49)"
    by (rule re_search_digit_run [OF _ d _ c]) (simp_all add: py_def)
  then have "search_len no_digits (py ''+LEN:'' @ replicate 4301 49 @ py '','')
          = Some (replicate 4301 49)"
    by (simp add: search_len_def py_def)
  then have big: "len_post_chunks 4300 no_digits [py ''+LEN:'' @ replicate 4301 49 @ py '','']
          = Inl ValueError"
    by (simp add: len_post_chunks_def py_int_def exceeds_limit_def)
  have rest: "len_post_chunks 4300 no_digits
       [py ''+LEN:11,'', py ''+POST:5,hello+POST:6,world!'', py ''SEND OK'']
     = Inr (Some \<lparr>expected_len = 11, post_sizes = [5, 6], total_post_bytes = 11\<rparr>)
   \<and> length (filter (\<lambda>l. re_search no_digits (py ''+POST:'') (py '','') l \<noteq> None)
         [py ''+LEN:11,'', py ''+POST:5,hello+POST:6,world!'', py ''SEND OK'']) = 1
   \<and> len_post_chunks 4300 no_digits [py ''+POST:5,'', py ''SEND OK''] = Inr None
   \<and> re_search no_digits (py ''+POST:'') (py '','') (py ''+POST:5,'') = Some (py ''5'')
   \<and> extract_download_stats 4300 no_digits
         (join_lines [py ''+LEN:11,'', py ''+POST:abc'', py ''SEND OK''])
     = Inr [''total_bytes'' \<mapsto> 11, ''chunks_received'' \<mapsto> 1]
   \<and> re_search no_digits (py ''+POST:'') (py '','') (py ''+POST:abc'') = None"
    by (simp add: frame_defs)
  from rest big show ?thesis by blast
qed

text \<open>
  C7, amended. For every line sequence, \<^verbatim>\<open>test_response_format_len_post_chunks\<close>
  captures nothing when no line holds a \<^verbatim>\<open>+LEN:<digits>,\<close> marker; otherwise it
  takes the declared length from the first such marker of the first line that has one,
  and one chunk size from every occurrence of \<^verbatim>\<open>+POST:<digits>,\<close>, line by line and
  from left to right within a line. \<^verbatim>\<open>extract_download_stats\<close> takes the declared
  length in the same way and counts the occurrences of the substring \<^verbatim>\<open>+POST:\<close>,
  whatever follows them; it captures no chunk size. In both, a captured run of digits
  that exceeds the interpreter's limit raises \<^verbatim>\<open>ValueError\<close>, and a line that matches
  none of the patterns can be left out without changing the result. The four lines of the
  example give length 1048576 and the chunk sizes 524288 and 524288, whose sum is the
  length, and a count of two chunks, whatever the limit.
\<close>

theorem frame_markers_by_occurrence:
  "len_post_chunks mx uni lines =
     (case first_some (search_len uni) lines of
        None \<Rightarrow> Inr None
      | Some g \<Rightarrow>
          if exceeds_limit mx g
             \<or> (\<exists>l\<in>set lines. \<exists>m\<in>set (findall_post uni l). exceeds_limit mx m)
          then Inl ValueError
          else
            Inr (Some \<lparr>expected_len = int_of_digits uni g,
                       post_sizes =
                         concat (map (\<lambda>l. map (int_of_digits uni) (findall_post uni l)) lines),
                       total_post_bytes =
                         sum_list (concat (map (\<lambda>l. map (int_of_digits uni)
                                                      (findall_post uni l)) lines))\<rparr>))
   \<and> extract_download_stats mx uni (join_lines lines) =
     (if (\<exists>g. first_some (search_len uni) lines = Some g \<and> exceeds_limit mx g)
         \<or> (\<exists>g. first_some (search_saved uni) lines = Some g \<and> exceeds_limit mx g)
      then Inl ValueError
      else
        Inr (\<lambda>k. if k = ''total_bytes''
                  then map_option (int_of_digits uni) (first_some (search_len uni) lines)
                  else if k = ''saved_bytes''
                  then map_option (int_of_digits uni) (first_some (search_saved uni) lines)
                  else if k = ''chunks_received'' \<and> 0 < sum_list (map count_post lines)
                  then Some (int (sum_list (map count_post lines)))
                  else None))
   \<and> (search_len uni l = None \<and> findall_post uni l = []
      \<longrightarrow> len_post_chunks mx uni (xs @ l # ys) = len_post_chunks mx uni (xs @ ys))
   \<and> (search_len uni l = None \<and> search_saved uni l = None \<and> count_post l = 0
      \<longrightarrow> extract_download_stats mx uni (join_lines (xs @ l # ys))
            = extract_download_stats mx uni (join_lines (xs @ ys)))
   \<and> len_post_chunks mx uni
        [py ''+LEN:1048576,'', py ''+POST:524288,'', py ''+POST:524288,'', py ''SEND OK'']
       = Inr (Some \<lparr>expected_len = 1048576, post_sizes = [524288, 524288],
                    total_post_bytes = 1048576\<rparr>)
   \<and> extract_download_stats mx uni
        (join_lines [py ''+LEN:1048576,'', py ''+POST:524288,'', py ''+POST:524288,'',
                     py ''SEND OK''])
       = Inr [''total_bytes'' \<mapsto> 1048576, ''chunks_received'' \<mapsto> 2]"
proof -
  have skip1: "len_post_chunks mx uni (xs @ l # ys) = len_post_chunks mx uni (xs @ ys)"
    if "search_len uni l = None \<and> findall_post uni l = []"
    using that unfolding len_post_chunks_by_line
    by (simp add: first_some_skip split: option.splits)
  have skip2: "extract_download_stats mx uni (join_lines (xs @ l # ys))
            = extract_download_stats mx uni (join_lines (xs @ ys))"
    if h: "search_len uni l = None \<and> search_saved uni l = None \<and> count_post l = 0"
  proof -
    have a: "first_some (search_len uni) (xs @ l # ys) = first_some (search_len uni) (xs @ ys)"
      using h by (simp add: first_some_skip)
    have b: "first_some (search_saved uni) (xs @ l # ys)
               = first_some (search_saved uni) (xs @ ys)"
      using h by (simp add: first_some_skip)
    have c: "sum_list (map count_post (xs @ l # ys)) = sum_list (map count_post (xs @ ys))"
      using h by simp
    show ?thesis
      unfolding extract_download_stats_by_line a b c by (rule refl)
  qed
  have ex1: "len_post_chunks mx uni
        [py ''+LEN:1048576,'', py ''+POST:524288,'', py ''+POST:524288,'', py ''SEND OK'']
       = Inr (Some \<lparr>expected_len = 1048576, post_sizes = [524288, 524288],
                    total_post_bytes = 1048576\<rparr>)"
    by (simp add: frame_defs)
  have ex2: "extract_download_stats mx uni
        (join_lines [py ''+LEN:1048576,'', py ''+POST:524288,'', py ''+POST:524288,'',
                     py ''SEND OK''])
       = Inr [''total_bytes'' \<mapsto> 1048576, ''chunks_received'' \<mapsto> 2]"
    by (simp add: frame_defs)
  from len_post_chunks_by_line [of mx uni lines]
    extract_download_stats_by_line [of mx uni lines] skip1 skip2 ex1 ex2
  show ?thesis by blast
qed

theorem frame_markers_by_occurrence_witness:
  "len_post_chunks 4300 no_digits
       ([py ''+LEN:11,''] @ py ''hello'' # [py ''+POST:5,x+POST:6,y'', py ''SEND OK''])
     = Inr (Some \<lparr>expected_len = 11, post_sizes = [5, 6], total_post_bytes = 11\<rparr>)
   \<and> extract_download_stats 4300 no_digits
       (join_lines ([py ''+LEN:11,''] @ py ''hello'' # [py ''+POST:abc'', py ''SEND OK'']))
     = Inr [''total_bytes'' \<mapsto> 11, ''chunks_received'' \<mapsto> 1]"
proof -
  have n: "search_len no_digits (py ''hello'') = None
        \<and> findall_post no_digits (py ''hello'') = []"
    by (simp add: frame_defs)
  have n': "search_len no_digits (py ''hello'') = None
        \<and> search_saved no_digits (py ''hello'') = None \<and> count_post (py ''hello'') = 0"
    by (simp add: frame_defs)
  have v: "len_post_chunks 4300 no_digits
       ([py ''+LEN:11,''] @ [py ''+POST:5,x+POST:6,y'', py ''SEND OK''])
     = Inr (Some \<lparr>expected_len = 11, post_sizes = [5, 6], total_post_bytes = 11\<rparr>)"
    by (simp add: frame_defs)
  have v': "extract_download_stats 4300 no_digits
       (join_lines ([py ''+LEN:11,''] @ [py ''+POST:abc'', py ''SEND OK'']))
     = Inr [''total_bytes'' \<mapsto> 11, ''chunks_received'' \<mapsto> 1]"
    by (simp add: frame_defs)
  note t = frame_markers_by_occurrence
         [where mx = 4300 and uni = no_digits and l = "py ''hello''"
            and xs = "[py ''+LEN:11,'']"]
  from t [where ys = "[py ''+POST:5,x+POST:6,y'', py ''SEND OK'']",
          THEN conjunct2, THEN conjunct2, THEN conjunct1, rule_format, OF n] v
  have 1: "len_post_chunks 4300 no_digits
       ([py ''+LEN:11,''] @ py ''hello'' # [py ''+POST:5,x+POST:6,y'', py ''SEND OK''])
     = Inr (Some \<lparr>expected_len = 11, post_sizes = [5, 6], total_post_bytes = 11\<rparr>)"
    by simp
  from t [where ys = "[py ''+POST:abc'', py ''SEND OK'']",
          THEN conjunct2, THEN conjunct2, THEN conjunct2, THEN conjunct1, rule_format, OF n'] v'
  have 2: "extract_download_stats 4300 no_digits
       (join_lines ([py ''+LEN:11,''] @ py ''hello'' # [py ''+POST:abc'', py ''SEND OK'']))
     = Inr [''total_bytes'' \<mapsto> 11, ''chunks_received'' \<mapsto> 1]"
    by simp
  from 1 2 show ?thesis by blast
qed

subsection \<open>Valid text survives decoding\<close>

lemma split_4096:
  fixes c :: nat
  shows "c div 64 = (c div 4096) * 64 + c div 64 mod 64"
proof -
  have "c div 4096 = c div 64 div 64"
    by (simp add: div_mult2_eq [symmetric])
  then show ?thesis by simp
qed

lemma split_262144:
  fixes c :: nat
  shows "c div 4096 = (c div 262144) * 64 + c div 4096 mod 64"
proof -
  have "c div 262144 = c div 4096 div 64"
    by (simp add: div_mult2_eq [symmetric])
  then show ?thesis by simp
qed

lemma utf8_ignore_encoded:
  assumes "encode_point c = Some pre"
  shows "utf8_ignore (pre @ r) = c # utf8_ignore r"
proof -
  consider (one) "c < 0x80" | (two) "0x80 \<le> c" "c < 0x800"
    | (three) "0x800 \<le> c" "c < 0x10000" "\<not> (0xD800 \<le> c \<and> c \<le> 0xDFFF)"
    | (four) "0x10000 \<le> c" "c < 0x110000"
    using assms by (auto simp: encode_point_def split: if_splits)
  then show ?thesis
  proof cases
    case one
    with assms show ?thesis by (auto simp: encode_point_def)
  next
    case two
    define q m where "q = c div 64" and "m = c mod 64"
    have c: "c = q * 64 + m" and m: "m < 64"
      by (simp_all add: q_def m_def)
    have q: "2 \<le> q" "q < 32"
      using two by (simp_all add: q_def less_mult_imp_div_less le_div_geq)
    have pre: "pre = [192 + q, 128 + m]"
      using assms two by (simp add: encode_point_def q_def m_def)
    show ?thesis
      using q m by (simp add: pre c is_continuation_def)
  next
    case three
    define x y z where "x = c div 4096" and "y = c div 64 mod 64" and "z = c mod 64"
    have d64: "c div 64 = x * 64 + y"
      unfolding x_def y_def by (rule split_4096)
    have "c = (c div 64) * 64 + z" by (simp add: z_def)
    then have c: "c = x * 4096 + y * 64 + z"
      by (simp add: d64)
    have y: "y < 64" and z: "z < 64" by (simp_all add: y_def z_def)
    have x: "x < 16" using three by (simp add: x_def less_mult_imp_div_less)
    have e0: "x = 0 \<Longrightarrow> 32 \<le> y" using three(1) c z by simp
    have ed: "x = 13 \<Longrightarrow> y < 32" using three(3) c z y by simp
    have pre: "pre = [224 + x, 128 + y, 128 + z]"
      using assms three by (simp add: encode_point_def x_def y_def z_def)
    have n0: "y < 32 \<Longrightarrow> x \<noteq> 0" using e0 by fastforce
    have nd: "\<not> y < 32 \<Longrightarrow> x \<noteq> 13" using ed by fastforce
    have ok: "\<not> bad_second3 (224 + x) (128 + y)"
      using y n0 nd by (simp add: bad_second3_def is_continuation_def)
    show ?thesis
      using x z ok by (simp add: pre c is_continuation_def)
  next
    case four
    define x y z w where "x = c div 262144" and "y = c div 4096 mod 64"
      and "z = c div 64 mod 64" and "w = c mod 64"
    have d4096: "c div 4096 = x * 64 + y"
      unfolding x_def y_def by (rule split_262144)
    have d64: "c div 64 = (c div 4096) * 64 + z"
      unfolding z_def by (rule split_4096)
    have "c = (c div 64) * 64 + w" by (simp add: w_def)
    then have c: "c = x * 262144 + y * 4096 + z * 64 + w"
      by (simp add: d64 d4096)
    have y: "y < 64" and z: "z < 64" and w: "w < 64"
      by (simp_all add: y_def z_def w_def)
    have x: "x < 5" using four by (simp add: x_def less_mult_imp_div_less)
    have f0: "x = 0 \<Longrightarrow> 16 \<le> y" using four(1) c z w by simp
    have f4: "x = 4 \<Longrightarrow> y < 16" using four(2) c by simp
    have pre: "pre = [240 + x, 128 + y, 128 + z, 128 + w]"
      using assms four by (simp add: encode_point_def x_def y_def z_def w_def)
    have n0: "y < 16 \<Longrightarrow> x \<noteq> 0" using f0 by fastforce
    have n4: "\<not> y < 16 \<Longrightarrow> x \<noteq> 4" using f4 by fastforce
    have ok: "\<not> bad_second4 (240 + x) (128 + y)"
      using y n0 n4 by (simp add: bad_second4_def is_continuation_def)
    show ?thesis
      using x z w ok by (simp add: pre c is_continuation_def)
  qed
qed


lemma utf8_strict_roundtrip: "utf8_strict s = Some bs \<Longrightarrow> utf8_ignore bs = s"
proof (induction s arbitrary: bs)
  case Nil
  then show ?case by simp
next
  case (Cons c cs)
  from Cons.prems obtain pre r where
    pre: "encode_point c = Some pre" and r: "utf8_strict cs = Some r" and bs: "bs = pre @ r"
    by (auto split: option.splits)
  from utf8_ignore_encoded [OF pre, of r] Cons.IH [OF r] bs show ?case by simp
qed

lemma encode_point_bytes: "encode_point c = Some pre \<Longrightarrow> \<forall>b\<in>set pre. b < 256"
proof -
  assume e: "encode_point c = Some pre"
  have m: "\<And>n::nat. 128 + n mod 64 < 256" by simp
  have a: "c < 2048 \<Longrightarrow> 192 + c div 64 < 256"
    and b: "c < 65536 \<Longrightarrow> 224 + c div 4096 < 256"
    and d: "c < 1114112 \<Longrightarrow> 240 + c div 262144 < 256"
    by (simp_all add: less_mult_imp_div_less)
  from e show ?thesis
    using m a b d by (auto simp: encode_point_def split: if_splits)
qed

lemma utf8_strict_bytes: "utf8_strict s = Some bs \<Longrightarrow> \<forall>b\<in>set bs. b < 256"
proof (induction s arbitrary: bs)
  case Nil
  then show ?case by simp
next
  case (Cons c cs)
  from Cons.prems obtain pre r where
    pre: "encode_point c = Some pre" and r: "utf8_strict cs = Some r" and bs: "bs = pre @ r"
    by (auto split: option.splits)
  from encode_point_bytes [OF pre] Cons.IH [OF r] bs show ?case by auto
qed

lemma unat_of_nat_byte: "\<forall>b\<in>set ns. b < 256 \<Longrightarrow> map unat (map of_nat ns :: byte list) = ns"
  by (induction ns) (simp_all add: unat_of_nat)

text \<open>
  Text that the strict encoder accepts comes back unchanged from the permissive decoder:
  only ill-formed bytes are dropped.
\<close>

theorem encoded_text_decodes_unchanged:
  "encode_utf8 s = Inr bs \<Longrightarrow> decode_ignore bs = s"
proof -
  assume "encode_utf8 s = Inr bs"
  then obtain ns where ns: "utf8_strict s = Some ns" and bs: "bs = map of_nat ns"
    by (auto simp: encode_utf8_def split: option.splits)
  from utf8_strict_bytes [OF ns] have "map unat bs = ns"
    unfolding bs by (rule unat_of_nat_byte)
  with utf8_strict_roundtrip [OF ns] show ?thesis
    by (simp add: decode_ignore_def)
qed

theorem encoded_text_decodes_unchanged_witness:
  "encode_utf8 (py ''OK'' @ [0xE9, 0x20AC, 0x1F600])
     = Inr [0x4F, 0x4B, 0xC3, 0xA9, 0xE2, 0x82, 0xAC, 0xF0, 0x9F, 0x98, 0x80]
   \<and> decode_ignore [0x4F, 0x4B, 0xC3, 0xA9, 0xE2, 0x82, 0xAC, 0xF0, 0x9F, 0x98, 0x80]
     = py ''OK'' @ [0xE9, 0x20AC, 0x1F600]"
proof -
  have e: "encode_utf8 (py ''OK'' @ [0xE9, 0x20AC, 0x1F600])
     = Inr [0x4F, 0x4B, 0xC3, 0xA9, 0xE2, 0x82, 0xAC, 0xF0, 0x9F, 0x98, 0x80]"
    by (simp add: encode_utf8_def encode_point_def py_def)
  from encoded_text_decodes_unchanged [OF e] e show ?thesis by simp
qed

end
